theory Spec2Isabelle
  imports Main "HOL-Library.Word"
begin

unbundle bit_operations_syntax

section \<open>The ivshmem server: data model\<close>

text \<open>
  The embedding follows \<^verbatim>\<open>contrib/ivshmem-server/ivshmem-server.c\<close>.
  C \<^verbatim>\<open>int\<close> values that are only compared (descriptors, return codes) are
  \<^typ>\<open>int\<close>; \<^verbatim>\<open>long\<close> (peer ids, the message payload) is a 64-bit
  word whose increment wraps; \<^verbatim>\<open>unsigned\<close> sizes that are shifted are
  32-bit words; loop counters that never overflow are \<^typ>\<open>nat\<close>.

  \<^verbatim>\<open>IvshmemServerPeer\<close>: \<open>vectors\<close> is the array
  \<^verbatim>\<open>int vectors[IVSHMEM_SERVER_MAX_VECTORS]\<close> of the structure, a list whose length is
  the capacity of the array; \<^verbatim>\<open>g_malloc0\<close> fills it with zeros and a store replaces
  one element. A read or a store at an index that is not below the capacity is
  reported as \<open>OutOfBounds\<close> by the functions below.
\<close>

record peer =
  peer_sock_fd :: int
  peer_id :: "64 word"
  vectors :: "int list"
  vectors_count :: nat

record server =
  unix_sock_path :: string
  sock_fd :: int
  shm_path :: string
  shm_size :: nat
  shm_fd :: int
  n_vectors :: nat
  cur_id :: "64 word"
  verbose :: bool
  peer_list :: "peer list"

text \<open>
  The constants of \<^verbatim>\<open>ivshmem-server.h\<close> that the functions use are parameters
  of the model.
\<close>

record hdr =
  IVSHMEM_PROTOCOL_VERSION :: "64 word"
  IVSHMEM_SERVER_MAX_VECTORS :: nat
  sizeof_unix_sock_path :: nat
  sizeof_shm_path :: nat

subsection \<open>The operating system\<close>

text \<open>
  Every system call and every allocation is an event of the trace, with the value it
  returned. The operating system is a function from the history and the call to the
  returned value and an \<^verbatim>\<open>errno\<close>. A system call leaves that \<^verbatim>\<open>errno\<close> when the
  value it returns is negative, and leaves \<^verbatim>\<open>errno\<close> as it was otherwise.
  \<open>Sendmsg sock payload fd\<close> is one \<^verbatim>\<open>sendmsg\<close> whose single iovec is the
  8-byte payload and whose control message, when present, carries one descriptor.

  The library functions (\<^verbatim>\<open>g_malloc0\<close>, \<^verbatim>\<open>g_free\<close>, \<^verbatim>\<open>printf\<close>, \<^verbatim>\<open>fprintf\<close>)
  return nothing that the program reads. A library function may leave \<^verbatim>\<open>errno\<close> set
  to a value that is not zero, whether or not it failed: that value is the second
  component of what the operating system answers, 0 when \<^verbatim>\<open>errno\<close> is left as it
  was. \<^verbatim>\<open>g_malloc0\<close> and \<^verbatim>\<open>g_free\<close> are logged in the trace with 0. What is printed
  is recorded apart, in \<open>printed\<close>, as the format string of the call (without its
  newline; the evaluation of its arguments, \<^verbatim>\<open>strerror(errno)\<close> among them, is part
  of the call), so that the trace is the same with and without \<open>verbose\<close>.
\<close>

datatype syscall =
    Accept4 int
  | Eventfd
  | Sendmsg int "64 word" "int option"
  | Close int
  | Ftruncate int "32 word"
  | Shm_open string
  | Socket
  | Bind int string
  | Listen int int
  | G_malloc0
  | G_free
  | Printf string
  | Fprintf string

type_synonym event = "syscall \<times> int"

record world =
  trace :: "event list"
  errno :: int
  printed :: "syscall list"

type_synonym os = "event list \<Rightarrow> syscall \<Rightarrow> int \<times> int"

definition EINTR :: int where
  "EINTR = 4"

definition sys :: "os \<Rightarrow> world \<Rightarrow> syscall \<Rightarrow> int \<times> world" where
  "sys os w c =
     (let (r, e) = os (trace w) c
      in (r, w\<lparr>trace := trace w @ [(c, r)], errno := (if r < 0 then e else errno w)\<rparr>))"

definition lib :: "os \<Rightarrow> world \<Rightarrow> syscall \<Rightarrow> world" where
  "lib os w c =
     (let e = snd (os (trace w) c)
      in w\<lparr>trace := trace w @ [(c, 0)], errno := (if e = 0 then errno w else e)\<rparr>)"

definition out :: "os \<Rightarrow> world \<Rightarrow> syscall \<Rightarrow> world" where
  "out os w c =
     (let e = snd (os (trace w) c)
      in w\<lparr>printed := printed w @ [c], errno := (if e = 0 then errno w else e)\<rparr>)"

text \<open>
  \<^verbatim>\<open>IVSHMEM_SERVER_DEBUG(server, fmt, ...)\<close>: a \<^verbatim>\<open>printf\<close> if \<^verbatim>\<open>server->verbose\<close>
  is set, nothing otherwise.
\<close>

definition debug :: "os \<Rightarrow> server \<Rightarrow> string \<Rightarrow> world \<Rightarrow> world" where
  "debug os s fmt w = (if verbose s then out os w (Printf fmt) else w)"

text \<open>
  What a function returns: a value, an out-of-bounds read (undefined behaviour in C),
  or no value at all because a loop runs forever.
\<close>

datatype 'a outcome = Returns 'a | OutOfBounds | Diverges

section \<open>Sending one message\<close>

text \<open>\<^verbatim>\<open>ivshmem_server_send_one_msg\<close>: the descriptor is attached only if \<open>fd \<ge> 0\<close>.\<close>

definition cmsg_of :: "int \<Rightarrow> int option" where
  "cmsg_of fd = (if fd \<ge> 0 then Some fd else None)"

definition ivshmem_server_send_one_msg ::
  "os \<Rightarrow> world \<Rightarrow> int \<Rightarrow> 64 word \<Rightarrow> int \<Rightarrow> int \<times> world" where
  "ivshmem_server_send_one_msg os w sock peerid fd =
     (let cmsg = cmsg_of fd;
          (ret, w1) = sys os w (Sendmsg sock peerid cmsg)
      in if ret \<le> 0 then (-1, w1) else (0, w1))"

section \<open>The peer registry\<close>

text \<open>\<^verbatim>\<open>ivshmem_server_search_peer\<close>: the first peer of the list with the given id.\<close>

primrec search_peer_in :: "peer list \<Rightarrow> 64 word \<Rightarrow> peer option" where
  "search_peer_in [] i = None"
| "search_peer_in (p # ps) i = (if peer_id p = i then Some p else search_peer_in ps i)"

definition ivshmem_server_search_peer :: "server \<Rightarrow> 64 word \<Rightarrow> peer option" where
  "ivshmem_server_search_peer s i = search_peer_in (peer_list s) i"

text \<open>Reading \<^verbatim>\<open>p->vectors[i]\<close>: the index must be below the capacity of the array.\<close>

definition vector_at :: "peer \<Rightarrow> nat \<Rightarrow> int option" where
  "vector_at p i = (if i < length (vectors p) then Some (vectors p ! i) else None)"

section \<open>The handshake\<close>

text \<open>
  \<^verbatim>\<open>ivshmem_server_send_initial_info\<close>: version, id, shared-memory descriptor, with
  the debug message after a send that failed.
\<close>

definition ivshmem_server_send_initial_info ::
  "hdr \<Rightarrow> os \<Rightarrow> server \<Rightarrow> peer \<Rightarrow> world \<Rightarrow> int \<times> world" where
  "ivshmem_server_send_initial_info h os s p w =
     (let (ret, w1) = ivshmem_server_send_one_msg os w (peer_sock_fd p)
                        (IVSHMEM_PROTOCOL_VERSION h) (-1)
      in if ret < 0 then (-1, debug os s ''cannot send version: %s'' w1)
         else
           let (ret, w2) = ivshmem_server_send_one_msg os w1 (peer_sock_fd p) (peer_id p) (-1)
           in if ret < 0 then (-1, debug os s ''cannot send peer id: %s'' w2)
              else
                let (ret, w3) = ivshmem_server_send_one_msg os w2 (peer_sock_fd p) (-1) (shm_fd s)
                in if ret < 0 then (-1, debug os s ''cannot send shm fd: %s'' w3) else (0, w3))"

text \<open>
  The loop \<^verbatim>\<open>while (ivshmem_server_search_peer(server, server->cur_id) != NULL)
  server->cur_id++\<close>. It ends only if some id is unused.
\<close>

partial_function (option) get_unused_id :: "server \<Rightarrow> server option" where
  "get_unused_id s =
     (if ivshmem_server_search_peer s (cur_id s) \<noteq> None
      then get_unused_id (s\<lparr>cur_id := cur_id s + 1\<rparr>)
      else Some s)"

declare get_unused_id.simps [code]

text \<open>
  The loop that creates one eventfd per vector, from index \<open>i\<close>:
  \<^verbatim>\<open>peer->vectors[i] = eventfd(0, 0); if (peer->vectors[i] < 0) goto fail\<close>. It returns
  whether it ran to its end, the index it stopped at, the peer and the world, or
  nothing when the store is beyond the array.
\<close>

function create_eventfds ::
  "os \<Rightarrow> server \<Rightarrow> peer \<Rightarrow> world \<Rightarrow> nat \<Rightarrow> (bool \<times> nat \<times> peer \<times> world) option" where
  "create_eventfds os s p w i =
     (if i < vectors_count p then
        (let (fd, w1) = sys os w Eventfd
         in if i < length (vectors p) then
              (let p1 = p\<lparr>vectors := (vectors p)[i := fd]\<rparr>
               in if fd < 0 then Some (False, i, p1, debug os s ''cannot create eventfd'' w1)
                  else create_eventfds os s p1 w1 (i + 1))
            else None)
      else Some (True, i, p, w))"
  by pat_completeness auto
termination
  by (relation "measure (\<lambda>(os, s, p, w, i). vectors_count p - i)") auto

declare create_eventfds.simps [simp del]

text \<open>
  \<^verbatim>\<open>for (i = 0; i < count; i++) ivshmem_server_send_one_msg(sock, ident, src->vectors[i])\<close>,
  from index \<open>i\<close>: the inner loop of the three advertisements. The result of each send
  is ignored.
\<close>

function send_vectors ::
  "os \<Rightarrow> int \<Rightarrow> 64 word \<Rightarrow> peer \<Rightarrow> nat \<Rightarrow> nat \<Rightarrow> world \<Rightarrow> world option" where
  "send_vectors os sock ident src count i w =
     (if i < count then
        (case vector_at src i of
           None \<Rightarrow> None
         | Some v \<Rightarrow>
             send_vectors os sock ident src count (i + 1)
               (snd (ivshmem_server_send_one_msg os w sock ident v)))
      else Some w)"
  by pat_completeness auto
termination
  by (relation "measure (\<lambda>(os, sock, ident, src, count, i, w). count - i)") auto

declare send_vectors.simps [simp del]

text \<open>Advertise the new peer to the others.\<close>

primrec advertise_new_to_others :: "os \<Rightarrow> peer list \<Rightarrow> peer \<Rightarrow> world \<Rightarrow> world option" where
  "advertise_new_to_others os [] p w = Some w"
| "advertise_new_to_others os (other # others) p w =
     (case send_vectors os (peer_sock_fd other) (peer_id p) p (vectors_count p) 0 w of
        None \<Rightarrow> None
      | Some w1 \<Rightarrow> advertise_new_to_others os others p w1)"

text \<open>Advertise the other peers to the new one.\<close>

primrec advertise_others_to_new :: "os \<Rightarrow> peer list \<Rightarrow> peer \<Rightarrow> world \<Rightarrow> world option" where
  "advertise_others_to_new os [] p w = Some w"
| "advertise_others_to_new os (other # others) p w =
     (case send_vectors os (peer_sock_fd p) (peer_id other) other (vectors_count p) 0 w of
        None \<Rightarrow> None
      | Some w1 \<Rightarrow> advertise_others_to_new os others p w1)"

text \<open>
  The \<^verbatim>\<open>fail:\<close> label: \<^verbatim>\<open>while (i--) close(peer->vectors[i])\<close>, then the socket and
  the structure.
\<close>

primrec close_vectors_down :: "os \<Rightarrow> peer \<Rightarrow> nat \<Rightarrow> world \<Rightarrow> world option" where
  "close_vectors_down os p 0 w = Some w"
| "close_vectors_down os p (Suc i) w =
     (case vector_at p i of
        None \<Rightarrow> None
      | Some v \<Rightarrow> close_vectors_down os p i (snd (sys os w (Close v))))"

definition handshake_fail ::
  "os \<Rightarrow> server \<Rightarrow> peer \<Rightarrow> int \<Rightarrow> nat \<Rightarrow> world \<Rightarrow> (int \<times> server \<times> world) outcome" where
  "handshake_fail os s p newfd i w =
     (case close_vectors_down os p i w of
        None \<Rightarrow> OutOfBounds
      | Some w1 \<Rightarrow>
          let w2 = snd (sys os w1 (Close newfd));
              w3 = lib os w2 G_free
          in Returns (-1, s, w3))"

text \<open>\<^verbatim>\<open>g_malloc0(sizeof(*peer))\<close>: a structure of zeros.\<close>

definition g_malloc0_peer :: "hdr \<Rightarrow> peer" where
  "g_malloc0_peer h =
     \<lparr>peer_sock_fd = 0, peer_id = 0, vectors = replicate (IVSHMEM_SERVER_MAX_VECTORS h) 0,
      vectors_count = 0\<rparr>"

text \<open>\<^verbatim>\<open>ivshmem_server_handle_new_conn\<close>.\<close>

definition ivshmem_server_handle_new_conn ::
  "hdr \<Rightarrow> os \<Rightarrow> server \<Rightarrow> world \<Rightarrow> (int \<times> server \<times> world) outcome" where
  "ivshmem_server_handle_new_conn h os s w =
     (let (newfd, w1) = sys os w (Accept4 (sock_fd s))
      in if newfd < 0 then Returns (-1, s, debug os s ''cannot accept() %s'' w1)
         else
           let w2 = lib os (debug os s ''accept()=%d'' w1) G_malloc0;
               p0 = (g_malloc0_peer h)\<lparr>peer_sock_fd := newfd\<rparr>
           in case get_unused_id s of
                None \<Rightarrow> Diverges
              | Some s1 \<Rightarrow>
                  let p1 = p0\<lparr>peer_id := cur_id s1\<rparr>;
                      s2 = s1\<lparr>cur_id := cur_id s1 + 1\<rparr>;
                      p2 = p1\<lparr>vectors_count := n_vectors s2\<rparr>
                  in case create_eventfds os s2 p2 w2 0 of
                       None \<Rightarrow> OutOfBounds
                     | Some (ok, i, p, w3) \<Rightarrow>
                         if \<not> ok then handshake_fail os s2 p newfd i w3
                         else
                           let (ret, w4) = ivshmem_server_send_initial_info h os s2 p w3
                           in if ret < 0
                              then handshake_fail os s2 p newfd i
                                     (debug os s2 ''cannot send initial info'' w4)
                              else
                                (case advertise_new_to_others os (peer_list s2) p w4 of
                                   None \<Rightarrow> OutOfBounds
                                 | Some w5 \<Rightarrow>
                                     (case advertise_others_to_new os (peer_list s2) p w5 of
                                        None \<Rightarrow> OutOfBounds
                                      | Some w6 \<Rightarrow>
                                          (case send_vectors os (peer_sock_fd p) (peer_id p) p
                                                  (vectors_count p) 0 w6 of
                                             None \<Rightarrow> OutOfBounds
                                           | Some w7 \<Rightarrow>
                                               Returns
                                                 (0, s2\<lparr>peer_list := peer_list s2 @ [p]\<rparr>,
                                                  debug os s2 ''new peer id = %ld'' w7)))))"

section \<open>Disconnection\<close>

text \<open>\<^verbatim>\<open>QTAILQ_FOREACH(other_peer, ...) ivshmem_server_send_one_msg(other_peer->sock_fd, peer->id, -1)\<close>.\<close>

primrec advertise_deletion :: "os \<Rightarrow> peer list \<Rightarrow> 64 word \<Rightarrow> world \<Rightarrow> world" where
  "advertise_deletion os [] ident w = w"
| "advertise_deletion os (other # others) ident w =
     advertise_deletion os others ident
       (snd (ivshmem_server_send_one_msg os w (peer_sock_fd other) ident (-1)))"

text \<open>\<^verbatim>\<open>for (vector = 0; vector < peer->vectors_count; vector++) close(peer->vectors[vector])\<close>.\<close>

function close_vectors :: "os \<Rightarrow> peer \<Rightarrow> nat \<Rightarrow> world \<Rightarrow> world option" where
  "close_vectors os p i w =
     (if i < vectors_count p then
        (case vector_at p i of
           None \<Rightarrow> None
         | Some v \<Rightarrow> close_vectors os p (i + 1) (snd (sys os w (Close v))))
      else Some w)"
  by pat_completeness auto
termination
  by (relation "measure (\<lambda>(os, p, i, w). vectors_count p - i)") auto

declare close_vectors.simps [simp del]

text \<open>The list without the element at position \<open>i\<close> (\<^verbatim>\<open>QTAILQ_REMOVE\<close>).\<close>

definition remove_nth :: "nat \<Rightarrow> 'a list \<Rightarrow> 'a list" where
  "remove_nth i xs = take i xs @ drop (Suc i) xs"

text \<open>
  \<^verbatim>\<open>ivshmem_server_free_peer\<close>. The C function takes a pointer to a member of the
  list; here the peer is named by its position \<open>i\<close> in the list, and a position
  outside the list is \<open>OutOfBounds\<close>.
\<close>

definition ivshmem_server_free_peer ::
  "os \<Rightarrow> server \<Rightarrow> nat \<Rightarrow> world \<Rightarrow> (server \<times> world) outcome" where
  "ivshmem_server_free_peer os s i w =
     (if i < length (peer_list s) then
        (let p = peer_list s ! i;
             w0 = debug os s ''free peer %ld'' w;
             w1 = snd (sys os w0 (Close (peer_sock_fd p)));
             s1 = s\<lparr>peer_list := remove_nth i (peer_list s)\<rparr>;
             w2 = advertise_deletion os (peer_list s1) (peer_id p) w1
         in case close_vectors os p 0 w2 of
              None \<Rightarrow> OutOfBounds
            | Some w3 \<Rightarrow> Returns (s1, lib os w3 G_free))
      else OutOfBounds)"

section \<open>One dispatch cycle\<close>

lemma free_peer_length:
  assumes "ivshmem_server_free_peer os s i w = Returns (s1, w1)"
  shows "i < length (peer_list s) \<and> length (peer_list s1) = length (peer_list s) - 1"
proof -
  from assms have lt: "i < length (peer_list s)"
    by (cases "i < length (peer_list s)") (simp_all add: ivshmem_server_free_peer_def)
  from assms lt have "peer_list s1 = remove_nth i (peer_list s)"
    by (simp add: ivshmem_server_free_peer_def Let_def split: option.splits) auto
  with lt show ?thesis by (simp add: remove_nth_def)
qed

text \<open>
  \<^verbatim>\<open>QTAILQ_FOREACH_SAFE\<close> over the peers, from position \<open>i\<close>: a peer whose socket is
  in the set is freed, and the peer that followed it is then at position \<open>i\<close>.
\<close>

function sweep_peers ::
  "os \<Rightarrow> int set \<Rightarrow> int \<Rightarrow> server \<Rightarrow> world \<Rightarrow> nat \<Rightarrow> (server \<times> world) outcome" where
  "sweep_peers os fds maxfd s w i =
     (if i < length (peer_list s) then
        (let p = peer_list s ! i;
             w0 = debug os s ''peer->sock_fd=%d'' w
         in if peer_sock_fd p < maxfd \<and> peer_sock_fd p \<in> fds then
              (case ivshmem_server_free_peer os s i w0 of
                 Returns (s1, w1) \<Rightarrow> sweep_peers os fds maxfd s1 w1 i
               | OutOfBounds \<Rightarrow> OutOfBounds
               | Diverges \<Rightarrow> Diverges)
            else sweep_peers os fds maxfd s w0 (i + 1))
      else Returns (s, w))"
  by pat_completeness auto
termination
  by (relation "measure (\<lambda>(os, fds, maxfd, s, w, i). length (peer_list s) - i)")
     (auto dest: free_peer_length)

declare sweep_peers.simps [simp del]

text \<open>
  \<^verbatim>\<open>ivshmem_server_handle_fds\<close>. The test of \<^verbatim>\<open>errno\<close> reads what the calls of
  \<^verbatim>\<open>ivshmem_server_handle_new_conn\<close> have left.
\<close>

definition ivshmem_server_handle_fds ::
  "hdr \<Rightarrow> os \<Rightarrow> server \<Rightarrow> int set \<Rightarrow> int \<Rightarrow> world \<Rightarrow> (int \<times> server \<times> world) outcome" where
  "ivshmem_server_handle_fds h os s fds maxfd w =
     (if sock_fd s < maxfd \<and> sock_fd s \<in> fds then
        (case ivshmem_server_handle_new_conn h os s w of
           Returns (ret, s1, w1) \<Rightarrow>
             if ret < 0 \<and> errno w1 \<noteq> EINTR
             then Returns (-1, s1, debug os s1 ''ivshmem_server_handle_new_conn() failed'' w1)
             else (case sweep_peers os fds maxfd s1 w1 0 of
                     Returns (s2, w2) \<Rightarrow> Returns (0, s2, w2)
                   | OutOfBounds \<Rightarrow> OutOfBounds
                   | Diverges \<Rightarrow> Diverges)
         | OutOfBounds \<Rightarrow> OutOfBounds
         | Diverges \<Rightarrow> Diverges)
      else (case sweep_peers os fds maxfd s w 0 of
              Returns (s2, w2) \<Rightarrow> Returns (0, s2, w2)
            | OutOfBounds \<Rightarrow> OutOfBounds
            | Diverges \<Rightarrow> Diverges))"

section \<open>Sizing the shared memory\<close>

definition IVSHMEM_SERVER_MAX_HUGEPAGE_SIZE :: "32 word" where
  "IVSHMEM_SERVER_MAX_HUGEPAGE_SIZE = 1024 * 1024 * 1024"

text \<open>The straight-line part of \<^verbatim>\<open>ivshmem_server_ftruncate\<close>, on \<^verbatim>\<open>unsigned\<close>.\<close>

definition align_shmsize :: "32 word \<Rightarrow> 32 word" where
  "align_shmsize shmsize =
     (let s0 = shmsize - 1;
          s1 = s0 OR drop_bit 1 s0;
          s2 = s1 OR drop_bit 2 s1;
          s3 = s2 OR drop_bit 4 s2;
          s4 = s3 OR drop_bit 8 s3;
          s5 = s4 OR drop_bit 16 s4
      in s5 + 1)"

text \<open>Its loop: \<^verbatim>\<open>while (shmsize <= IVSHMEM_SERVER_MAX_HUGEPAGE_SIZE)\<close>.\<close>

partial_function (option) ftruncate_retry ::
  "os \<Rightarrow> int \<Rightarrow> 32 word \<Rightarrow> world \<Rightarrow> (int \<times> world) option" where
  "ftruncate_retry os fd shmsize w =
     (if shmsize \<le> IVSHMEM_SERVER_MAX_HUGEPAGE_SIZE then
        (case sys os w (Ftruncate fd shmsize) of
           (ret, w1) \<Rightarrow>
             if ret = 0 then Some (ret, w1)
             else ftruncate_retry os fd (shmsize * 2) w1)
      else Some (-1, w))"

declare ftruncate_retry.simps [code]

definition ivshmem_server_ftruncate ::
  "os \<Rightarrow> int \<Rightarrow> 32 word \<Rightarrow> world \<Rightarrow> (int \<times> world) option" where
  "ivshmem_server_ftruncate os fd shmsize w = ftruncate_retry os fd (align_shmsize shmsize) w"

section \<open>Initialising and starting the server\<close>

text \<open>
  \<^verbatim>\<open>snprintf(buf, size, "%s", src)\<close>: what the buffer holds and the value returned.
\<close>

definition snprintf_s :: "nat \<Rightarrow> string \<Rightarrow> int \<times> string" where
  "snprintf_s n src = (int (length src), take (n - 1) src)"

definition zero_server :: server where
  "zero_server =
     \<lparr>unix_sock_path = [], sock_fd = 0, shm_path = [], shm_size = 0, shm_fd = 0,
      n_vectors = 0, cur_id = 0, verbose = False, peer_list = []\<rparr>"

text \<open>
  \<^verbatim>\<open>ivshmem_server_init\<close>. Its two \<^verbatim>\<open>IVSHMEM_SERVER_DEBUG\<close> print nothing:
  \<^verbatim>\<open>server->verbose\<close> is 0 from the \<^verbatim>\<open>memset\<close> until the last assignments.
\<close>

definition ivshmem_server_init ::
  "hdr \<Rightarrow> string \<Rightarrow> string \<Rightarrow> nat \<Rightarrow> nat \<Rightarrow> bool \<Rightarrow> int \<times> server" where
  "ivshmem_server_init h sock_path shmpath shmsize nvectors verb =
     (let s0 = zero_server;
          (ret, buf) = snprintf_s (sizeof_unix_sock_path h) sock_path;
          s1 = s0\<lparr>unix_sock_path := buf\<rparr>
      in if ret < 0 \<or> ret \<ge> int (sizeof_unix_sock_path h) then (-1, s1)
         else
           let (ret, buf) = snprintf_s (sizeof_shm_path h) shmpath;
               s2 = s1\<lparr>shm_path := buf\<rparr>
           in if ret < 0 \<or> ret \<ge> int (sizeof_shm_path h) then (-1, s2)
              else (0, s2\<lparr>shm_size := shmsize, n_vectors := nvectors, verbose := verb,
                            peer_list := []\<rparr>))"

definition IVSHMEM_SERVER_LISTEN_BACKLOG :: int where
  "IVSHMEM_SERVER_LISTEN_BACKLOG = 10"

text \<open>\<^verbatim>\<open>sizeof(sun.sun_path)\<close> of \<^verbatim>\<open>struct sockaddr_un\<close> on Linux.\<close>

definition sizeof_sun_path :: nat where
  "sizeof_sun_path = 108"

text \<open>The labels \<^verbatim>\<open>err_close_sock\<close> and \<^verbatim>\<open>err_close_shm\<close> of \<^verbatim>\<open>ivshmem_server_start\<close>.\<close>

definition err_close_shm :: "os \<Rightarrow> server \<Rightarrow> int \<Rightarrow> world \<Rightarrow> (int \<times> server \<times> world) outcome" where
  "err_close_shm os s shmfd w = Returns (-1, s, snd (sys os w (Close shmfd)))"

definition err_close_sock ::
  "os \<Rightarrow> server \<Rightarrow> int \<Rightarrow> int \<Rightarrow> world \<Rightarrow> (int \<times> server \<times> world) outcome" where
  "err_close_sock os s sockfd shmfd w = err_close_shm os s shmfd (snd (sys os w (Close sockfd)))"

text \<open>\<^verbatim>\<open>ivshmem_server_start\<close>.\<close>

definition ivshmem_server_start ::
  "os \<Rightarrow> server \<Rightarrow> world \<Rightarrow> (int \<times> server \<times> world) outcome" where
  "ivshmem_server_start os s w =
     (let (shmfd, w1) = sys os w (Shm_open (shm_path s))
      in if shmfd < 0
         then Returns (-1, s, out os w1 (Fprintf ''cannot open shm file %s: %s''))
         else
           (case ivshmem_server_ftruncate os shmfd (of_nat (shm_size s)) w1 of
              None \<Rightarrow> Diverges
            | Some (ret, w2) \<Rightarrow>
                if ret < 0
                then err_close_shm os s shmfd (out os w2 (Fprintf ''ftruncate(%s) failed: %s''))
                else
                  let (sockfd, w3) = sys os (debug os s ''create & bind socket %s'' w2) Socket
                  in if sockfd < 0
                     then err_close_shm os s shmfd (debug os s ''cannot create socket: %s'' w3)
                     else
                       let (ret, sun_path) = snprintf_s sizeof_sun_path (unix_sock_path s)
                       in if ret < 0 \<or> ret \<ge> int sizeof_sun_path
                          then err_close_sock os s sockfd shmfd
                                 (debug os s ''could not copy unix socket path'' w3)
                          else
                            let (ret, w4) = sys os w3 (Bind sockfd sun_path)
                            in if ret < 0
                               then err_close_sock os s sockfd shmfd
                                      (debug os s ''cannot connect to %s: %s'' w4)
                               else
                                 let (ret, w5) =
                                       sys os w4 (Listen sockfd IVSHMEM_SERVER_LISTEN_BACKLOG)
                                 in if ret < 0
                                    then err_close_sock os s sockfd shmfd
                                           (debug os s ''listen() failed: %s'' w5)
                                    else Returns (0, s\<lparr>sock_fd := sockfd, shm_fd := shmfd\<rparr>, w5)))"

section \<open>Sequences of operations\<close>

text \<open>
  A connection (\<^verbatim>\<open>ivshmem_server_handle_new_conn\<close>), the disconnection of the peer at
  a position of the list (\<^verbatim>\<open>ivshmem_server_free_peer\<close>), or one dispatch cycle
  (\<^verbatim>\<open>ivshmem_server_handle_fds\<close>).
\<close>

datatype op = Connect | Disconnect nat | Cycle "int set" int

fun run :: "hdr \<Rightarrow> os \<Rightarrow> op list \<Rightarrow> server \<Rightarrow> world \<Rightarrow> (server \<times> world) outcome" where
  "run h os [] s w = Returns (s, w)"
| "run h os (Connect # ops) s w =
     (case ivshmem_server_handle_new_conn h os s w of
        Returns (ret, s1, w1) \<Rightarrow> run h os ops s1 w1
      | OutOfBounds \<Rightarrow> OutOfBounds
      | Diverges \<Rightarrow> Diverges)"
| "run h os (Disconnect i # ops) s w =
     (case ivshmem_server_free_peer os s i w of
        Returns (s1, w1) \<Rightarrow> run h os ops s1 w1
      | OutOfBounds \<Rightarrow> OutOfBounds
      | Diverges \<Rightarrow> Diverges)"
| "run h os (Cycle fds maxfd # ops) s w =
     (case ivshmem_server_handle_fds h os s fds maxfd w of
        Returns (ret, s1, w1) \<Rightarrow> run h os ops s1 w1
      | OutOfBounds \<Rightarrow> OutOfBounds
      | Diverges \<Rightarrow> Diverges)"

text \<open>
  A freshly started server: \<^verbatim>\<open>ivshmem_server_init\<close> and \<^verbatim>\<open>ivshmem_server_start\<close>
  have both returned 0.
\<close>

definition freshly_started ::
  "hdr \<Rightarrow> os \<Rightarrow> string \<Rightarrow> string \<Rightarrow> nat \<Rightarrow> nat \<Rightarrow> bool \<Rightarrow> world \<Rightarrow> server \<Rightarrow> world \<Rightarrow> bool" where
  "freshly_started h os sock_path shmpath shmsize nvectors verb w0 s w =
     (case ivshmem_server_init h sock_path shmpath shmsize nvectors verb of
        (ret, s0) \<Rightarrow> ret = 0 \<and> ivshmem_server_start os s0 w0 = Returns (0, s, w))"

section \<open>Vocabulary of the properties\<close>

definition initial_info :: "hdr \<Rightarrow> server \<Rightarrow> peer \<Rightarrow> syscall list" where
  "initial_info h s p =
     [Sendmsg (peer_sock_fd p) (IVSHMEM_PROTOCOL_VERSION h) None,
      Sendmsg (peer_sock_fd p) (peer_id p) None,
      Sendmsg (peer_sock_fd p) (- 1) (cmsg_of (shm_fd s))]"

text \<open>
  The peer that a handshake builds in an array of capacity \<open>cap\<close>: the slots written
  are \<open>vs\<close>, the others are as \<^verbatim>\<open>g_malloc0\<close> left them.
\<close>

definition new_peer :: "nat \<Rightarrow> int \<Rightarrow> 64 word \<Rightarrow> nat \<Rightarrow> int list \<Rightarrow> peer" where
  "new_peer cap fd c n vs =
     \<lparr>peer_sock_fd = fd, peer_id = c, vectors = vs @ replicate (cap - length vs) 0,
      vectors_count = n\<rparr>"

definition advertisement :: "int \<Rightarrow> 64 word \<Rightarrow> int list \<Rightarrow> syscall list" where
  "advertisement sock ident vs = map (\<lambda>v. Sendmsg sock ident (cmsg_of v)) vs"

text \<open>The invariants of the registry.\<close>

definition ids_distinct :: "server \<Rightarrow> bool" where
  "ids_distinct s \<longleftrightarrow> distinct (map peer_id (peer_list s))"

definition vectors_ok :: "hdr \<Rightarrow> server \<Rightarrow> bool" where
  "vectors_ok h s \<longleftrightarrow>
     (\<forall>p\<in>set (peer_list s). vectors_count p = n_vectors s \<and>
        length (vectors p) = IVSHMEM_SERVER_MAX_VECTORS h \<and>
        n_vectors s \<le> IVSHMEM_SERVER_MAX_VECTORS h)"

text \<open>What every operation keeps.\<close>

definition preserved :: "hdr \<Rightarrow> server \<Rightarrow> server \<Rightarrow> bool" where
  "preserved h s s' \<longleftrightarrow>
     n_vectors s' = n_vectors s \<and> (ids_distinct s \<longrightarrow> ids_distinct s') \<and>
     (vectors_ok h s \<longrightarrow> vectors_ok h s')"

text \<open>
  The events and the calls between two worlds, the messages (payload and descriptor)
  that a list of calls sends to one socket, the descriptors it closes, and the
  eventfds that a list of events created.
\<close>

definition events_since :: "world \<Rightarrow> world \<Rightarrow> event list" where
  "events_since w w' = drop (length (trace w)) (trace w')"

definition calls_since :: "world \<Rightarrow> world \<Rightarrow> syscall list" where
  "calls_since w w' = map fst (events_since w w')"

primrec messages_to :: "int \<Rightarrow> syscall list \<Rightarrow> (64 word \<times> int option) list" where
  "messages_to sock [] = []"
| "messages_to sock (c # cs) =
     (case c of
        Sendmsg sk ident d \<Rightarrow> (if sk = sock then [(ident, d)] else [])
      | _ \<Rightarrow> []) @ messages_to sock cs"

primrec fds_closed :: "syscall list \<Rightarrow> int list" where
  "fds_closed [] = []"
| "fds_closed (c # cs) = (case c of Close fd \<Rightarrow> [fd] | _ \<Rightarrow> []) @ fds_closed cs"

text \<open>
  \<^verbatim>\<open>sizeof(long)\<close>, the size of the payload, and the messages that a list of events
  has delivered to one socket: those of the \<^verbatim>\<open>sendmsg\<close> on that socket that
  transferred the whole payload.
\<close>

definition sizeof_long :: int where
  "sizeof_long = 8"

primrec delivered_to :: "int \<Rightarrow> event list \<Rightarrow> (64 word \<times> int option) list" where
  "delivered_to sock [] = []"
| "delivered_to sock (e # es) =
     (case fst e of
        Sendmsg sk ident d \<Rightarrow> (if sk = sock \<and> snd e = sizeof_long then [(ident, d)] else [])
      | _ \<Rightarrow> []) @ delivered_to sock es"

definition eventfds_created :: "event list \<Rightarrow> int list" where
  "eventfds_created evs = map snd (filter (\<lambda>e. fst e = Eventfd \<and> 0 \<le> snd e) evs)"

definition is_send :: "syscall \<Rightarrow> bool" where
  "is_send c = (case c of Sendmsg sk ident d \<Rightarrow> True | _ \<Rightarrow> False)"

text \<open>The ids of the registry after a run, in the order of the list.\<close>

definition ids_after :: "(server \<times> world) outcome \<Rightarrow> 64 word list option" where
  "ids_after r = (case r of Returns (s, w) \<Rightarrow> Some (map peer_id (peer_list s)) | _ \<Rightarrow> None)"


text \<open>
  For an id \<open>c\<close>: the number of increments that bring \<open>cur_id\<close> to \<open>c\<close>, the peers
  whose id the counter meets before it meets \<open>c\<close>, and the invariant under which the
  next \<open>n\<close> operations do not assign \<open>c\<close>.
\<close>

definition gap :: "64 word \<Rightarrow> server \<Rightarrow> nat" where
  "gap c t = unat (c - cur_id t)"

definition ahead :: "64 word \<Rightarrow> server \<Rightarrow> peer list" where
  "ahead c t = filter (\<lambda>q. unat (peer_id q - cur_id t) < gap c t) (peer_list t)"

definition skips :: "64 word \<Rightarrow> nat \<Rightarrow> server \<Rightarrow> bool" where
  "skips c n t \<longleftrightarrow> c \<notin> peer_id ` set (peer_list t) \<and> length (ahead c t) + n < gap c t"

text \<open>
  The sizing of the shared memory as the specification words it: the bit-smearing
  alone, and the attempts from the power of two \<open>2^k\<close> on, each size the double of
  the one before, that succeed at the first size the storage accepts and fail once the
  size exceeds \<open>2^30\<close>.
\<close>

definition smear :: "32 word \<Rightarrow> 32 word" where
  "smear s0 =
     (let s1 = s0 OR drop_bit 1 s0;
          s2 = s1 OR drop_bit 2 s1;
          s3 = s2 OR drop_bit 4 s2;
          s4 = s3 OR drop_bit 8 s3
      in s4 OR drop_bit 16 s4)"

function attempt_doublings :: "os \<Rightarrow> int \<Rightarrow> nat \<Rightarrow> world \<Rightarrow> int \<times> world" where
  "attempt_doublings os fd k w =
     (if k \<le> 30 then
        (case sys os w (Ftruncate fd (2 ^ k)) of
           (ret, w1) \<Rightarrow> if ret = 0 then (0, w1) else attempt_doublings os fd (k + 1) w1)
      else (- 1, w))"
  by pat_completeness auto
termination
  by (relation "measure (\<lambda>(os, fd, k, w). 31 - k)") auto

declare attempt_doublings.simps [simp del]
section \<open>Operating systems for the examples\<close>

text \<open>
  \<open>os_ok\<close>: every call succeeds, every new descriptor is fresh (its number grows with
  the history) and every \<^verbatim>\<open>sendmsg\<close> transfers the 8 bytes of the payload.
  \<open>os_partial_write\<close> transfers 3 bytes on every \<^verbatim>\<open>sendmsg\<close>.
  \<open>os_accept_fails e\<close> is \<open>os_ok\<close> with an \<^verbatim>\<open>accept4\<close> that fails with
  \<^verbatim>\<open>errno\<close> \<open>e\<close>; \<open>os_eventfd_limit k\<close> is \<open>os_ok\<close> with an \<^verbatim>\<open>eventfd\<close>
  that fails with \<^verbatim>\<open>EMFILE\<close> once the history holds \<open>k\<close> events; \<open>os_deaf sock\<close>
  is \<open>os_ok\<close> with a \<^verbatim>\<open>sendmsg\<close> that fails with \<^verbatim>\<open>EAGAIN\<close> on the socket
  \<open>sock\<close>.
\<close>

definition os_ok :: os where
  "os_ok tr c =
     (case c of
        Accept4 _ \<Rightarrow> (int (length tr) + 3, 0)
      | Eventfd \<Rightarrow> (int (length tr) + 3, 0)
      | Shm_open _ \<Rightarrow> (int (length tr) + 3, 0)
      | Socket \<Rightarrow> (int (length tr) + 3, 0)
      | Sendmsg _ _ _ \<Rightarrow> (sizeof_long, 0)
      | _ \<Rightarrow> (0, 0))"

definition EMFILE :: int where
  "EMFILE = 24"

definition EAGAIN :: int where
  "EAGAIN = 11"


definition os_eventfd_limit :: "nat \<Rightarrow> os" where
  "os_eventfd_limit k tr c =
     (case c of
        Eventfd \<Rightarrow> (if length tr < k then os_ok tr c else (- 1, EMFILE))
      | _ \<Rightarrow> os_ok tr c)"

definition os_deaf :: "int \<Rightarrow> os" where
  "os_deaf sock tr c =
     (case c of
        Sendmsg sk _ _ \<Rightarrow> (if sk = sock then (- 1, EAGAIN) else os_ok tr c)
      | _ \<Rightarrow> os_ok tr c)"

definition os_partial_write :: os where
  "os_partial_write tr c = (3, 0)"

definition empty_world :: world where
  "empty_world = \<lparr>trace = [], errno = 0, printed = []\<rparr>"

text \<open>
  The header of the examples (protocol version 0, arrays of 4 vectors,
  \<^verbatim>\<open>PATH_MAX\<close> buffers), and the
  server that \<^verbatim>\<open>ivshmem_server_init\<close> and \<^verbatim>\<open>ivshmem_server_start\<close> leave on
  \<open>os_ok\<close> for two vectors.
\<close>

definition hdr0 :: hdr where
  "hdr0 =
     \<lparr>IVSHMEM_PROTOCOL_VERSION = 0, IVSHMEM_SERVER_MAX_VECTORS = 4,
      sizeof_unix_sock_path = 4096, sizeof_shm_path = 4096\<rparr>"

definition started_server :: server where
  "started_server =
     \<lparr>unix_sock_path = ''/tmp/sock'', sock_fd = 5, shm_path = ''shm'', shm_size = 4096,
      shm_fd = 3, n_vectors = 2, cur_id = 0, verbose = False, peer_list = []\<rparr>"

definition started_world :: world where
  "started_world =
     \<lparr>trace = [(Shm_open ''shm'', 3), (Ftruncate 3 4096, 0), (Socket, 5),
               (Bind 5 ''/tmp/sock'', 0), (Listen 5 10, 0)],
      errno = 0, printed = []\<rparr>"

text \<open>
  The scenario of the specification on \<open>os_ok\<close>: peer A connects, peer B connects,
  B disconnects, peer C connects.
\<close>

definition peer_A :: peer where
  "peer_A = \<lparr>peer_sock_fd = 8, peer_id = 0, vectors = [10, 11, 0, 0],
      vectors_count = 2\<rparr>"

definition peer_B :: peer where
  "peer_B = \<lparr>peer_sock_fd = 17, peer_id = 1, vectors = [19, 20, 0, 0],
      vectors_count = 2\<rparr>"

definition peer_C :: peer where
  "peer_C = \<lparr>peer_sock_fd = 35, peer_id = 2, vectors = [37, 38, 0, 0],
      vectors_count = 2\<rparr>"

definition server_A :: server where
  "server_A = started_server\<lparr>cur_id := 1, peer_list := [peer_A]\<rparr>"

definition world_A :: world where
  "world_A =
     \<lparr>trace = trace started_world @
        [(Accept4 5, 8), (G_malloc0, 0), (Eventfd, 10), (Eventfd, 11),
         (Sendmsg 8 0 None, 8), (Sendmsg 8 0 None, 8), (Sendmsg 8 (- 1) (Some 3), 8),
         (Sendmsg 8 0 (Some 10), 8), (Sendmsg 8 0 (Some 11), 8)],
      errno = 0, printed = []\<rparr>"

definition server_AB :: server where
  "server_AB = started_server\<lparr>cur_id := 2, peer_list := [peer_A, peer_B]\<rparr>"

definition world_AB :: world where
  "world_AB =
     \<lparr>trace = trace world_A @
        [(Accept4 5, 17), (G_malloc0, 0), (Eventfd, 19), (Eventfd, 20),
         (Sendmsg 17 0 None, 8), (Sendmsg 17 1 None, 8), (Sendmsg 17 (- 1) (Some 3), 8),
         (Sendmsg 8 1 (Some 19), 8), (Sendmsg 8 1 (Some 20), 8),
         (Sendmsg 17 0 (Some 10), 8), (Sendmsg 17 0 (Some 11), 8),
         (Sendmsg 17 1 (Some 19), 8), (Sendmsg 17 1 (Some 20), 8)],
      errno = 0, printed = []\<rparr>"

definition server_A' :: server where
  "server_A' = started_server\<lparr>cur_id := 2, peer_list := [peer_A]\<rparr>"

definition world_A' :: world where
  "world_A' =
     \<lparr>trace = trace world_AB @
        [(Close 17, 0), (Sendmsg 8 1 None, 8), (Close 19, 0), (Close 20, 0), (G_free, 0)],
      errno = 0, printed = []\<rparr>"

definition server_AC :: server where
  "server_AC = started_server\<lparr>cur_id := 3, peer_list := [peer_A, peer_C]\<rparr>"

definition world_AC :: world where
  "world_AC =
     \<lparr>trace = trace world_A' @
        [(Accept4 5, 35), (G_malloc0, 0), (Eventfd, 37), (Eventfd, 38),
         (Sendmsg 35 0 None, 8), (Sendmsg 35 2 None, 8), (Sendmsg 35 (- 1) (Some 3), 8),
         (Sendmsg 8 2 (Some 37), 8), (Sendmsg 8 2 (Some 38), 8),
         (Sendmsg 35 0 (Some 10), 8), (Sendmsg 35 0 (Some 11), 8),
         (Sendmsg 35 2 (Some 37), 8), (Sendmsg 35 2 (Some 38), 8)],
      errno = 0, printed = []\<rparr>"

text \<open>A header whose arrays hold one vector, less than the two of the server.\<close>

definition hdr_small :: hdr where
  "hdr_small = hdr0\<lparr>IVSHMEM_SERVER_MAX_VECTORS := 1\<rparr>"

text \<open>
  A handshake that aborts: with A registered, the second \<^verbatim>\<open>eventfd\<close> of the next
  connection fails.
\<close>

definition server_A_aborted :: server where
  "server_A_aborted = started_server\<lparr>cur_id := 2, peer_list := [peer_A]\<rparr>"

definition world_A_aborted :: world where
  "world_A_aborted =
     \<lparr>trace = trace world_A @
        [(Accept4 5, 17), (G_malloc0, 0), (Eventfd, 19), (Eventfd, - 1),
         (Close 19, 0), (Close 17, 0), (G_free, 0)],
      errno = EMFILE, printed = []\<rparr>"

text \<open>The next connection after the aborted one, on \<open>os_ok\<close>.\<close>

definition peer_D :: peer where
  "peer_D = \<lparr>peer_sock_fd = 24, peer_id = 2, vectors = [26, 27, 0, 0],
      vectors_count = 2\<rparr>"

definition server_AD :: server where
  "server_AD = started_server\<lparr>cur_id := 3, peer_list := [peer_A, peer_D]\<rparr>"

definition world_AD :: world where
  "world_AD =
     \<lparr>trace = trace world_A_aborted @
        [(Accept4 5, 24), (G_malloc0, 0), (Eventfd, 26), (Eventfd, 27),
         (Sendmsg 24 0 None, 8), (Sendmsg 24 2 None, 8), (Sendmsg 24 (- 1) (Some 3), 8),
         (Sendmsg 8 2 (Some 26), 8), (Sendmsg 8 2 (Some 27), 8),
         (Sendmsg 24 0 (Some 10), 8), (Sendmsg 24 0 (Some 11), 8),
         (Sendmsg 24 2 (Some 26), 8), (Sendmsg 24 2 (Some 27), 8)],
      errno = EMFILE, printed = []\<rparr>"

text \<open>
  B connects while A is registered and A's socket takes no message; and the worlds
  after an \<^verbatim>\<open>accept4\<close> that fails with \<^verbatim>\<open>EINTR\<close> and with \<^verbatim>\<open>EMFILE\<close>.
\<close>

definition world_AB_deaf :: world where
  "world_AB_deaf =
     \<lparr>trace = trace world_A @
        [(Accept4 5, 17), (G_malloc0, 0), (Eventfd, 19), (Eventfd, 20),
         (Sendmsg 17 0 None, 8), (Sendmsg 17 1 None, 8), (Sendmsg 17 (- 1) (Some 3), 8),
         (Sendmsg 8 1 (Some 19), - 1), (Sendmsg 8 1 (Some 20), - 1),
         (Sendmsg 17 0 (Some 10), 8), (Sendmsg 17 0 (Some 11), 8),
         (Sendmsg 17 1 (Some 19), 8), (Sendmsg 17 1 (Some 20), 8)],
      errno = EAGAIN, printed = []\<rparr>"



text \<open>\<open>os_no_ftruncate\<close> is \<open>os_ok\<close> with an \<^verbatim>\<open>ftruncate\<close> that rejects every size.\<close>

definition EINVAL :: int where
  "EINVAL = 22"

definition os_no_ftruncate :: os where
  "os_no_ftruncate tr c = (case c of Ftruncate _ _ \<Rightarrow> (- 1, EINVAL) | _ \<Rightarrow> os_ok tr c)"

text \<open>
  B disconnects while A's socket takes no message; the dispatch cycles of a verbose
  server whose standard output is closed, on an \<^verbatim>\<open>accept4\<close> that fails with
  \<open>e\<close>; and a handshake whose second \<^verbatim>\<open>eventfd\<close> fails with \<^verbatim>\<open>EMFILE\<close> and whose
  \<^verbatim>\<open>close\<close> are interrupted.
\<close>

definition world_A'_deaf :: world where
  "world_A'_deaf =
     \<lparr>trace = trace world_AB @
        [(Close 17, 0), (Sendmsg 8 1 None, - 1), (Close 19, 0), (Close 20, 0), (G_free, 0)],
      errno = EAGAIN, printed = []\<rparr>"






section \<open>Auxiliary lemmas\<close>

lemma search_peer_in_None: "search_peer_in ps i = None \<longleftrightarrow> i \<notin> peer_id ` set ps"
  by (induction ps) auto

lemma search_peer_None:
  "ivshmem_server_search_peer s i = None \<longleftrightarrow> i \<notin> peer_id ` set (peer_list s)"
  by (simp add: ivshmem_server_search_peer_def search_peer_in_None)

lemma get_unused_id_free:
  "cur_id s \<notin> peer_id ` set (peer_list s) \<Longrightarrow> get_unused_id s = Some s"
  by (subst get_unused_id.simps) (simp add: search_peer_None)

lemma get_unused_id_step:
  "cur_id s \<in> peer_id ` set (peer_list s) \<Longrightarrow>
   get_unused_id s = get_unused_id (s\<lparr>cur_id := cur_id s + 1\<rparr>)"
  by (subst get_unused_id.simps) (simp add: search_peer_None)

lemma get_unused_id_Some:
  assumes "get_unused_id s = Some s1"
  shows "\<exists>c. s1 = s\<lparr>cur_id := c\<rparr> \<and> c \<notin> peer_id ` set (peer_list s)"
proof (rule get_unused_id.raw_induct[OF _ assms])
  fix f s s1
  assume IH: "\<And>x y. f x = Some y \<Longrightarrow> \<exists>c. y = x\<lparr>cur_id := c\<rparr> \<and> c \<notin> peer_id ` set (peer_list x)"
    and eq: "(if ivshmem_server_search_peer s (cur_id s) \<noteq> None
               then f (s\<lparr>cur_id := cur_id s + 1\<rparr>) else Some s) = Some s1"
  show "\<exists>c. s1 = s\<lparr>cur_id := c\<rparr> \<and> c \<notin> peer_id ` set (peer_list s)"
  proof (cases "cur_id s \<in> peer_id ` set (peer_list s)")
    case True
    with eq have "f (s\<lparr>cur_id := cur_id s + 1\<rparr>) = Some s1"
      by (simp add: search_peer_None)
    from IH[OF this] show ?thesis by auto
  next
    case False
    with eq have "s1 = s" by (simp add: search_peer_None)
    with False show ?thesis by (intro exI[of _ "cur_id s"]) simp
  qed
qed

lemma get_unused_id_total_aux:
  "cur_id s + of_nat k \<notin> peer_id ` set (peer_list s) \<Longrightarrow> \<exists>s1. get_unused_id s = Some s1"
proof (induction k arbitrary: s)
  case 0
  then show ?case by (simp add: get_unused_id_free)
next
  case (Suc k)
  show ?case
  proof (cases "cur_id s \<in> peer_id ` set (peer_list s)")
    case True
    let ?s = "s\<lparr>cur_id := cur_id s + 1\<rparr>"
    from Suc.prems have "cur_id ?s + of_nat k \<notin> peer_id ` set (peer_list ?s)"
      by (simp add: ac_simps)
    from Suc.IH[OF this] show ?thesis by (simp add: get_unused_id_step[OF True])
  next
    case False
    then show ?thesis by (simp add: get_unused_id_free)
  qed
qed

lemma unused_id_exists:
  assumes "length ps < 2 ^ 64"
  shows "\<exists>c::64 word. c \<notin> peer_id ` set ps"
proof (rule ccontr)
  assume "\<not> ?thesis"
  then have "peer_id ` set ps = (UNIV :: 64 word set)" by auto
  then have "card (peer_id ` set ps) = 2 ^ 64" by (simp add: card_word)
  moreover have "card (peer_id ` set ps) \<le> length ps"
    by (metis card_image_le card_length le_trans List.finite_set)
  ultimately show False using assms by simp
qed

lemma get_unused_id_total:
  assumes "length (peer_list s) < 2 ^ 64"
  shows "\<exists>s1. get_unused_id s = Some s1"
proof -
  from unused_id_exists[OF assms] obtain c where c: "c \<notin> peer_id ` set (peer_list s)" by blast
  have "cur_id s + of_nat (unat (c - cur_id s)) = c" by simp
  with c get_unused_id_total_aux[of s "unat (c - cur_id s)"] show ?thesis by simp
qed

lemma sys_fst: "fst (sys os w c) = fst (os (trace w) c)"
  by (simp add: sys_def split: prod.splits)

lemma sys_trace: "trace (snd (sys os w c)) = trace w @ [(c, fst (os (trace w) c))]"
  by (simp add: sys_def split: prod.splits)


lemma lib_trace: "trace (lib os w c) = trace w @ [(c, 0)]"
  by (simp add: lib_def Let_def)

lemma out_trace [simp]: "trace (out os w c) = trace w"
  by (simp add: out_def Let_def)

lemma debug_trace [simp]: "trace (debug os s fmt w) = trace w"
  by (simp add: debug_def)


lemma send_one_msg_fst:
  "fst (ivshmem_server_send_one_msg os w sock ident fd) =
     (if fst (os (trace w) (Sendmsg sock ident (cmsg_of fd))) \<le> 0 then - 1 else 0)"
  by (simp add: ivshmem_server_send_one_msg_def sys_def Let_def split: prod.splits)

lemma send_one_msg_trace:
  "trace (snd (ivshmem_server_send_one_msg os w sock ident fd)) =
     trace w @ [(Sendmsg sock ident (cmsg_of fd), fst (os (trace w) (Sendmsg sock ident (cmsg_of fd))))]"
  by (simp add: ivshmem_server_send_one_msg_def sys_def Let_def split: prod.splits)

lemma send_vectors_ok:
  "count \<le> length (vectors src) \<Longrightarrow>
   \<exists>w' evs. send_vectors os sock ident src count i w = Some w' \<and>
     trace w' = trace w @ evs \<and>
     map fst evs = map (\<lambda>v. Sendmsg sock ident (cmsg_of v)) (drop i (take count (vectors src)))"
proof (induction os sock ident src count i w rule: send_vectors.induct)
  case (1 os sock ident src count i w)
  show ?case
  proof (cases "i < count")
    case True
    with 1(2) have at: "vector_at src i = Some (vectors src ! i)"
      by (simp add: vector_at_def)
    let ?w1 = "snd (ivshmem_server_send_one_msg os w sock ident (vectors src ! i))"
    from 1(1)[OF True at 1(2)] obtain w' evs where
      r: "send_vectors os sock ident src count (i + 1) ?w1 = Some w'"
      and t: "trace w' = trace ?w1 @ evs"
      and c: "map fst evs =
        map (\<lambda>v. Sendmsg sock ident (cmsg_of v)) (drop (i + 1) (take count (vectors src)))"
      by blast
    have d: "drop i (take count (vectors src)) =
        vectors src ! i # drop (i + 1) (take count (vectors src))"
      using True 1(2) by (simp add: Cons_nth_drop_Suc [symmetric])
    have "send_vectors os sock ident src count i w = Some w'"
      using True at r by (subst send_vectors.simps) simp
    moreover have "trace w' = trace w @
        (Sendmsg sock ident (cmsg_of (vectors src ! i)),
         fst (os (trace w) (Sendmsg sock ident (cmsg_of (vectors src ! i))))) # evs"
      using t by (simp add: send_one_msg_trace)
    ultimately show ?thesis using c d by (intro exI conjI) (assumption, assumption, simp)
  next
    case False
    then have "send_vectors os sock ident src count i w = Some w"
      by (subst send_vectors.simps) simp
    with False show ?thesis by simp
  qed
qed

lemma send_vectors_None:
  "send_vectors os sock ident src count i w = None \<Longrightarrow> length (vectors src) < count"
  using send_vectors_ok[of count src os sock ident i w] by (cases "count \<le> length (vectors src)") auto

lemma advertise_new_to_others_ok:
  "vectors_count p \<le> length (vectors p) \<Longrightarrow>
   \<exists>w' evs. advertise_new_to_others os others p w = Some w' \<and>
     trace w' = trace w @ evs \<and>
     map fst evs =
       concat (map (\<lambda>q. map (\<lambda>v. Sendmsg (peer_sock_fd q) (peer_id p) (cmsg_of v))
                           (take (vectors_count p) (vectors p))) others)"
proof (induction others arbitrary: w)
  case Nil
  then show ?case by simp
next
  case (Cons q others)
  from send_vectors_ok[OF Cons.prems, of os "peer_sock_fd q" "peer_id p" 0 w]
  obtain w1 evs1 where
    a: "send_vectors os (peer_sock_fd q) (peer_id p) p (vectors_count p) 0 w = Some w1"
    and b: "trace w1 = trace w @ evs1"
    and c: "map fst evs1 = map (\<lambda>v. Sendmsg (peer_sock_fd q) (peer_id p) (cmsg_of v))
              (take (vectors_count p) (vectors p))"
    by auto
  from Cons.IH[OF Cons.prems, of w1] obtain w' evs where
    d: "advertise_new_to_others os others p w1 = Some w'"
    and e: "trace w' = trace w1 @ evs"
    and f: "map fst evs =
       concat (map (\<lambda>q. map (\<lambda>v. Sendmsg (peer_sock_fd q) (peer_id p) (cmsg_of v))
                           (take (vectors_count p) (vectors p))) others)"
    by blast
  have "advertise_new_to_others os (q # others) p w = Some w'"
    using a d by simp
  moreover have "trace w' = trace w @ (evs1 @ evs)"
    using b e by simp
  moreover have "map fst (evs1 @ evs) =
       concat (map (\<lambda>q. map (\<lambda>v. Sendmsg (peer_sock_fd q) (peer_id p) (cmsg_of v))
                           (take (vectors_count p) (vectors p))) (q # others))"
    using c f by simp
  ultimately show ?case by blast
qed

lemma advertise_others_to_new_ok:
  "\<forall>q\<in>set others. vectors_count p \<le> length (vectors q) \<Longrightarrow>
   \<exists>w' evs. advertise_others_to_new os others p w = Some w' \<and>
     trace w' = trace w @ evs \<and>
     map fst evs =
       concat (map (\<lambda>q. map (\<lambda>v. Sendmsg (peer_sock_fd p) (peer_id q) (cmsg_of v))
                           (take (vectors_count p) (vectors q))) others)"
proof (induction others arbitrary: w)
  case Nil
  then show ?case by simp
next
  case (Cons q others)
  from Cons.prems have le: "vectors_count p \<le> length (vectors q)"
    and rest: "\<forall>q\<in>set others. vectors_count p \<le> length (vectors q)"
    by simp_all
  from send_vectors_ok[OF le, of os "peer_sock_fd p" "peer_id q" 0 w]
  obtain w1 evs1 where
    a: "send_vectors os (peer_sock_fd p) (peer_id q) q (vectors_count p) 0 w = Some w1"
    and b: "trace w1 = trace w @ evs1"
    and c: "map fst evs1 = map (\<lambda>v. Sendmsg (peer_sock_fd p) (peer_id q) (cmsg_of v))
              (take (vectors_count p) (vectors q))"
    by auto
  from Cons.IH[OF rest, of w1] obtain w' evs where
    d: "advertise_others_to_new os others p w1 = Some w'"
    and e: "trace w' = trace w1 @ evs"
    and f: "map fst evs =
       concat (map (\<lambda>q. map (\<lambda>v. Sendmsg (peer_sock_fd p) (peer_id q) (cmsg_of v))
                           (take (vectors_count p) (vectors q))) others)"
    by blast
  have "advertise_others_to_new os (q # others) p w = Some w'"
    using a d by simp
  moreover have "trace w' = trace w @ (evs1 @ evs)"
    using b e by simp
  moreover have "map fst (evs1 @ evs) =
       concat (map (\<lambda>q. map (\<lambda>v. Sendmsg (peer_sock_fd p) (peer_id q) (cmsg_of v))
                           (take (vectors_count p) (vectors q))) (q # others))"
    using c f by simp
  ultimately show ?case by blast
qed

lemma advertise_others_to_new_None:
  "advertise_others_to_new os others p w = None \<Longrightarrow>
   \<exists>q\<in>set others. length (vectors q) < vectors_count p"
  using advertise_others_to_new_ok[of others p os w] by force

lemma close_vectors_down_ok:
  "i \<le> length (vectors p) \<Longrightarrow>
   \<exists>w' evs. close_vectors_down os p i w = Some w' \<and> trace w' = trace w @ evs \<and>
     map fst evs = map Close (rev (take i (vectors p)))"
proof (induction i arbitrary: w)
  case 0
  then show ?case by simp
next
  case (Suc i)
  then have lt: "i < length (vectors p)" by simp
  then have at: "vector_at p i = Some (vectors p ! i)" by (simp add: vector_at_def)
  let ?w1 = "snd (sys os w (Close (vectors p ! i)))"
  from Suc.IH[of ?w1] lt obtain w' evs where
    a: "close_vectors_down os p i ?w1 = Some w'"
    and b: "trace w' = trace ?w1 @ evs"
    and c: "map fst evs = map Close (rev (take i (vectors p)))"
    by auto
  have "close_vectors_down os p (Suc i) w = Some w'" using at a by simp
  moreover have "trace w' =
      trace w @ (Close (vectors p ! i), fst (os (trace w) (Close (vectors p ! i)))) # evs"
    using b by (simp add: sys_trace)
  moreover have "map fst ((Close (vectors p ! i), fst (os (trace w) (Close (vectors p ! i)))) # evs)
      = map Close (rev (take (Suc i) (vectors p)))"
    using c lt by (simp add: take_Suc_conv_app_nth)
  ultimately show ?case by blast
qed

lemma close_vectors_ok:
  "vectors_count p \<le> length (vectors p) \<Longrightarrow>
   \<exists>w' evs. close_vectors os p i w = Some w' \<and> trace w' = trace w @ evs \<and>
     map fst evs = map Close (drop i (take (vectors_count p) (vectors p)))"
proof (induction os p i w rule: close_vectors.induct)
  case (1 os p i w)
  show ?case
  proof (cases "i < vectors_count p")
    case True
    with 1(2) have at: "vector_at p i = Some (vectors p ! i)"
      by (simp add: vector_at_def)
    let ?w1 = "snd (sys os w (Close (vectors p ! i)))"
    from 1(1)[OF True at 1(2)] obtain w' evs where
      r: "close_vectors os p (i + 1) ?w1 = Some w'"
      and t: "trace w' = trace ?w1 @ evs"
      and c: "map fst evs = map Close (drop (i + 1) (take (vectors_count p) (vectors p)))"
      by blast
    have d: "drop i (take (vectors_count p) (vectors p)) =
        vectors p ! i # drop (i + 1) (take (vectors_count p) (vectors p))"
      using True 1(2) by (simp add: Cons_nth_drop_Suc [symmetric])
    have "close_vectors os p i w = Some w'"
      using True at r by (subst close_vectors.simps) simp
    moreover have "trace w' = trace w @
        (Close (vectors p ! i), fst (os (trace w) (Close (vectors p ! i)))) # evs"
      using t by (simp add: sys_trace)
    ultimately show ?thesis using c d by (intro exI conjI) (assumption, assumption, simp)
  next
    case False
    then have "close_vectors os p i w = Some w"
      by (subst close_vectors.simps) simp
    with False show ?thesis by simp
  qed
qed

lemma advertise_deletion_trace:
  "\<exists>evs. trace (advertise_deletion os others ident w) = trace w @ evs \<and>
     map fst evs = map (\<lambda>q. Sendmsg (peer_sock_fd q) ident None) others"
proof (induction others arbitrary: w)
  case Nil
  then show ?case by simp
next
  case (Cons q others)
  let ?w1 = "snd (ivshmem_server_send_one_msg os w (peer_sock_fd q) ident (- 1))"
  from Cons.IH[of ?w1] obtain evs where
    a: "trace (advertise_deletion os others ident ?w1) = trace ?w1 @ evs"
    and b: "map fst evs = map (\<lambda>q. Sendmsg (peer_sock_fd q) ident None) others"
    by blast
  have "trace (advertise_deletion os (q # others) ident w) =
      trace w @ (Sendmsg (peer_sock_fd q) ident None,
                 fst (os (trace w) (Sendmsg (peer_sock_fd q) ident None))) # evs"
    using a by (simp add: send_one_msg_trace cmsg_of_def)
  then show ?case using b by (intro exI conjI) (assumption, simp)
qed

lemma create_eventfds_unfold:
  "create_eventfds os s p w i =
     (if i < vectors_count p then
        (if i < length (vectors p) then
           (if fst (os (trace w) Eventfd) < 0
            then Some (False, i, p\<lparr>vectors := (vectors p)[i := fst (os (trace w) Eventfd)]\<rparr>,
                       debug os s ''cannot create eventfd'' (snd (sys os w Eventfd)))
            else create_eventfds os s (p\<lparr>vectors := (vectors p)[i := fst (os (trace w) Eventfd)]\<rparr>)
                   (snd (sys os w Eventfd)) (i + 1))
         else None)
      else Some (True, i, p, w))"
  by (subst create_eventfds.simps) (simp add: Let_def sys_fst [symmetric] split: prod.splits)

lemma take_Suc_update: "i < length xs \<Longrightarrow> take (Suc i) (xs[i := x]) = take i xs @ [x]"
  by (simp add: take_Suc_conv_app_nth)

lemma create_eventfds_res:
  "create_eventfds os s p w i = Some (ok, j, p', w') \<Longrightarrow> i \<le> vectors_count p \<Longrightarrow>
   i \<le> length (vectors p) \<Longrightarrow>
   \<exists>evs. trace w' = trace w @ evs \<and> map fst evs = replicate (length evs) Eventfd \<and>
     i + length evs \<le> length (vectors p) \<and>
     p' = p\<lparr>vectors := take i (vectors p) @ map snd evs @ drop (i + length evs) (vectors p)\<rparr> \<and>
     (ok \<longrightarrow> j = vectors_count p \<and> length evs = vectors_count p - i \<and>
            (\<forall>r\<in>set (map snd evs). 0 \<le> r)) \<and>
     (\<not> ok \<longrightarrow> j < vectors_count p \<and> i \<le> j \<and> length evs = Suc (j - i) \<and>
            (\<forall>r\<in>set (butlast (map snd evs)). 0 \<le> r) \<and> last (map snd evs) < 0)"
proof (induction os s p w i arbitrary: ok j p' w' rule: create_eventfds.induct)
  case (1 os s p w i)
  let ?fd = "fst (os (trace w) Eventfd)"
  let ?w1 = "snd (sys os w Eventfd)"
  let ?p1 = "p\<lparr>vectors := (vectors p)[i := ?fd]\<rparr>"
  have sys_eq: "sys os w Eventfd = (?fd, ?w1)"
    by (simp add: sys_fst [symmetric])
  show ?case
  proof (cases "i < vectors_count p")
    case False
    with 1(2) have "ok \<and> j = i \<and> p' = p \<and> w' = w"
      by (subst (asm) create_eventfds_unfold) auto
    with False 1(3,4) show ?thesis by (intro exI[of _ "[]"]) simp
  next
    case True
    have cap: "i < length (vectors p)"
    proof (rule ccontr)
      assume "\<not> i < length (vectors p)"
      with True 1(2) show False by (subst (asm) create_eventfds_unfold) simp
    qed
    show ?thesis
    proof (cases "?fd < 0")
      case neg: True
      with True cap 1(2) have "\<not> ok \<and> j = i \<and> p' = ?p1 \<and>
          w' = debug os s ''cannot create eventfd'' ?w1"
        by (subst (asm) create_eventfds_unfold) auto
      moreover have "(vectors p)[i := ?fd] = take i (vectors p) @ [?fd] @ drop (i + 1) (vectors p)"
        using cap by (simp add: upd_conv_take_nth_drop)
      ultimately show ?thesis using True neg cap
        by (intro exI[of _ "[(Eventfd, ?fd)]"]) (simp add: sys_trace)
    next
      case nonneg: False
      with True cap 1(2) have rec: "create_eventfds os s ?p1 ?w1 (i + 1) = Some (ok, j, p', w')"
        by (subst (asm) create_eventfds_unfold) simp
      have "i + 1 \<le> vectors_count ?p1" "i + 1 \<le> length (vectors ?p1)" using True cap by simp_all
      from 1(1)[OF True sys_eq[symmetric] refl cap refl nonneg rec this]
      obtain evs where
        t: "trace w' = trace ?w1 @ evs"
        and c: "map fst evs = replicate (length evs) Eventfd"
        and b: "i + 1 + length evs \<le> length (vectors ?p1)"
        and p: "p' = ?p1\<lparr>vectors := take (i + 1) (vectors ?p1) @ map snd evs @
                                       drop (i + 1 + length evs) (vectors ?p1)\<rparr>"
        and ok: "ok \<longrightarrow> j = vectors_count ?p1 \<and> length evs = vectors_count ?p1 - (i + 1) \<and>
            (\<forall>r\<in>set (map snd evs). 0 \<le> r)"
        and nok: "\<not> ok \<longrightarrow> j < vectors_count ?p1 \<and> i + 1 \<le> j \<and> length evs = Suc (j - (i + 1)) \<and>
            (\<forall>r\<in>set (butlast (map snd evs)). 0 \<le> r) \<and> last (map snd evs) < 0"
        by blast
      let ?evs = "(Eventfd, ?fd) # evs"
      have "trace w' = trace w @ ?evs" using t by (simp add: sys_trace)
      moreover have "map fst ?evs = replicate (length ?evs) Eventfd" using c by simp
      moreover have "i + length ?evs \<le> length (vectors p)" using b by simp
      moreover have "p' = p\<lparr>vectors := take i (vectors p) @ map snd ?evs @
                                          drop (i + length ?evs) (vectors p)\<rparr>"
        using p cap by (simp add: take_Suc_update)
      moreover have "ok \<longrightarrow> j = vectors_count p \<and> length ?evs = vectors_count p - i \<and>
            (\<forall>r\<in>set (map snd ?evs). 0 \<le> r)"
        using ok nonneg True by auto
      moreover have "\<not> ok \<longrightarrow> j < vectors_count p \<and> i \<le> j \<and> length ?evs = Suc (j - i) \<and>
            (\<forall>r\<in>set (butlast (map snd ?evs)). 0 \<le> r) \<and> last (map snd ?evs) < 0"
      proof
        assume n: "\<not> ok"
        with nok have a: "j < vectors_count p" "i + 1 \<le> j" "length evs = Suc (j - (i + 1))"
          "\<forall>r\<in>set (butlast (map snd evs)). 0 \<le> r" "last (map snd evs) < 0"
          by simp_all
        from a(3) have ne: "evs \<noteq> []" by auto
        from a ne nonneg show "j < vectors_count p \<and> i \<le> j \<and> length ?evs = Suc (j - i) \<and>
            (\<forall>r\<in>set (butlast (map snd ?evs)). 0 \<le> r) \<and> last (map snd ?evs) < 0"
          by auto
      qed
      ultimately show ?thesis by blast
    qed
  qed
qed

lemma create_eventfds_in_bounds:
  "vectors_count p \<le> length (vectors p) \<Longrightarrow> create_eventfds os s p w i \<noteq> None"
proof (induction os s p w i rule: create_eventfds.induct)
  case (1 os s p w i)
  let ?fd = "fst (os (trace w) Eventfd)"
  let ?w1 = "snd (sys os w Eventfd)"
  let ?p1 = "p\<lparr>vectors := (vectors p)[i := ?fd]\<rparr>"
  have sys_eq: "sys os w Eventfd = (?fd, ?w1)"
    by (simp add: sys_fst [symmetric])
  show ?case
  proof (cases "i < vectors_count p")
    case False
    then show ?thesis by (subst create_eventfds_unfold) simp
  next
    case True
    with 1(2) have cap: "i < length (vectors p)" by simp
    show ?thesis
    proof (cases "?fd < 0")
      case neg: True
      with True cap show ?thesis by (subst create_eventfds_unfold) simp
    next
      case nonneg: False
      have "vectors_count ?p1 \<le> length (vectors ?p1)" using 1(2) by simp
      from 1(1)[OF True sys_eq[symmetric] refl cap refl nonneg this]
      show ?thesis using True cap nonneg by (subst create_eventfds_unfold) simp
    qed
  qed
qed

lemma create_eventfds_None:
  assumes "create_eventfds os s p w i = None"
  shows "length (vectors p) < vectors_count p"
  using create_eventfds_in_bounds[of p os s w i] assms by (cases "vectors_count p \<le> length (vectors p)") auto

lemma send_one_msg_eq:
  assumes "ivshmem_server_send_one_msg os w sock ident fd = (ret, w1)"
  shows "\<exists>r. trace w1 = trace w @ [(Sendmsg sock ident (cmsg_of fd), r)] \<and>
             ret = (if r \<le> 0 then - 1 else 0)"
proof -
  from assms have "ret = fst (ivshmem_server_send_one_msg os w sock ident fd)"
    and "w1 = snd (ivshmem_server_send_one_msg os w sock ident fd)"
    by simp_all
  then show ?thesis by (simp add: send_one_msg_fst send_one_msg_trace)
qed

lemma send_initial_info_res:
  assumes "ivshmem_server_send_initial_info h os s p w = (ret, w')"
  shows "\<exists>evs. trace w' = trace w @ evs \<and>
     (ret = 0 \<and> map fst evs = initial_info h s p \<and> (\<forall>e\<in>set evs. 0 < snd e) \<or>
      ret = - 1 \<and> evs \<noteq> [] \<and> map fst evs = take (length evs) (initial_info h s p) \<and>
        snd (last evs) \<le> 0 \<and> (\<forall>e\<in>set (butlast evs). 0 < snd e))"
proof -
  obtain r1 w1 where e1: "ivshmem_server_send_one_msg os w (peer_sock_fd p)
      (IVSHMEM_PROTOCOL_VERSION h) (- 1) = (r1, w1)" by fastforce
  obtain r2 w2 where e2: "ivshmem_server_send_one_msg os w1 (peer_sock_fd p) (peer_id p) (- 1)
      = (r2, w2)" by fastforce
  obtain r3 w3 where e3: "ivshmem_server_send_one_msg os w2 (peer_sock_fd p) (- 1) (shm_fd s)
      = (r3, w3)" by fastforce
  from send_one_msg_eq[OF e1] obtain x1 where
    t1: "trace w1 = trace w @ [(Sendmsg (peer_sock_fd p) (IVSHMEM_PROTOCOL_VERSION h) None, x1)]"
    and v1: "r1 = (if x1 \<le> 0 then - 1 else 0)" by (auto simp: cmsg_of_def)
  from send_one_msg_eq[OF e2] obtain x2 where
    t2: "trace w2 = trace w1 @ [(Sendmsg (peer_sock_fd p) (peer_id p) None, x2)]"
    and v2: "r2 = (if x2 \<le> 0 then - 1 else 0)" by (auto simp: cmsg_of_def)
  from send_one_msg_eq[OF e3] obtain x3 where
    t3: "trace w3 = trace w2 @ [(Sendmsg (peer_sock_fd p) (- 1) (cmsg_of (shm_fd s)), x3)]"
    and v3: "r3 = (if x3 \<le> 0 then - 1 else 0)" by auto
  consider (a) "r1 < 0" | (b) "\<not> r1 < 0" "r2 < 0" | (c) "\<not> r1 < 0" "\<not> r2 < 0" "r3 < 0"
    | (d) "\<not> r1 < 0" "\<not> r2 < 0" "\<not> r3 < 0" by blast
  then show ?thesis
  proof cases
    case a
    with assms e1 have "ret = - 1 \<and> trace w' = trace w1"
      by (auto simp: ivshmem_server_send_initial_info_def)
    moreover from a v1 have "x1 \<le> 0" by (simp split: if_splits)
    ultimately show ?thesis using t1 by (simp add: initial_info_def)
  next
    case b
    with assms e1 e2 have "ret = - 1 \<and> trace w' = trace w2"
      by (auto simp: ivshmem_server_send_initial_info_def)
    moreover from b v1 v2 have "0 < x1 \<and> x2 \<le> 0" by (simp split: if_splits)
    ultimately show ?thesis using t1 t2 by (simp add: initial_info_def)
  next
    case c
    with assms e1 e2 e3 have "ret = - 1 \<and> trace w' = trace w3"
      by (auto simp: ivshmem_server_send_initial_info_def)
    moreover from c v1 v2 v3 have "0 < x1 \<and> 0 < x2 \<and> x3 \<le> 0" by (simp split: if_splits)
    ultimately show ?thesis using t1 t2 t3 by (simp add: initial_info_def)
  next
    case d
    with assms e1 e2 e3 have "ret = 0 \<and> trace w' = trace w3"
      by (auto simp: ivshmem_server_send_initial_info_def)
    moreover from d v1 v2 v3 have "0 < x1 \<and> 0 < x2 \<and> 0 < x3" by (simp split: if_splits)
    ultimately show ?thesis using t1 t2 t3 by (simp add: initial_info_def)
  qed
qed

lemma handshake_fail_res:
  assumes "i \<le> length (vectors p)"
  shows "\<exists>w' evs. handshake_fail os s p newfd i w = Returns (- 1, s, w') \<and>
     trace w' = trace w @ evs \<and>
     map fst evs = map Close (rev (take i (vectors p))) @ [Close newfd, G_free]"
proof -
  from close_vectors_down_ok[OF assms, of os w] obtain w1 evs where
    a: "close_vectors_down os p i w = Some w1"
    and b: "trace w1 = trace w @ evs"
    and c: "map fst evs = map Close (rev (take i (vectors p)))"
    by blast
  let ?w' = "lib os (snd (sys os w1 (Close newfd))) G_free"
  have "handshake_fail os s p newfd i w = Returns (- 1, s, ?w')"
    using a by (simp add: handshake_fail_def)
  moreover have "trace ?w' =
      trace w @ (evs @ [(Close newfd, fst (os (trace w1) (Close newfd))), (G_free, 0)])"
    using b by (simp add: lib_trace sys_trace)
  moreover have "map fst (evs @ [(Close newfd, fst (os (trace w1) (Close newfd))), (G_free, 0)])
      = map Close (rev (take i (vectors p))) @ [Close newfd, G_free]"
    using c by simp
  ultimately show ?thesis by blast
qed

lemma handle_new_conn_accept_failed:
  "fst (os (trace w) (Accept4 (sock_fd s))) < 0 \<Longrightarrow>
   ivshmem_server_handle_new_conn h os s w =
     Returns (- 1, s, debug os s ''cannot accept() %s'' (snd (sys os w (Accept4 (sock_fd s)))))"
  by (simp add: ivshmem_server_handle_new_conn_def case_prod_beta sys_fst)

lemma handle_new_conn_accepted:
  assumes acc: "0 \<le> fst (os (trace w) (Accept4 (sock_fd s)))"
  shows "ivshmem_server_handle_new_conn h os s w =
    (case get_unused_id s of
       None \<Rightarrow> Diverges
     | Some s1 \<Rightarrow>
        (case create_eventfds os (s1\<lparr>cur_id := cur_id s1 + 1\<rparr>)
                (new_peer (IVSHMEM_SERVER_MAX_VECTORS h)
                   (fst (os (trace w) (Accept4 (sock_fd s)))) (cur_id s1) (n_vectors s1) [])
                (lib os (debug os s ''accept()=%d'' (snd (sys os w (Accept4 (sock_fd s)))))
                   G_malloc0) 0 of
           None \<Rightarrow> OutOfBounds
         | Some (ok, i, p, w3) \<Rightarrow>
             if \<not> ok
             then handshake_fail os (s1\<lparr>cur_id := cur_id s1 + 1\<rparr>) p
                    (fst (os (trace w) (Accept4 (sock_fd s)))) i w3
             else
               (case ivshmem_server_send_initial_info h os (s1\<lparr>cur_id := cur_id s1 + 1\<rparr>) p w3 of
                  (ret, w4) \<Rightarrow>
                    if ret < 0
                    then handshake_fail os (s1\<lparr>cur_id := cur_id s1 + 1\<rparr>) p
                           (fst (os (trace w) (Accept4 (sock_fd s)))) i
                           (debug os (s1\<lparr>cur_id := cur_id s1 + 1\<rparr>) ''cannot send initial info'' w4)
                    else
                      (case advertise_new_to_others os (peer_list s1) p w4 of
                         None \<Rightarrow> OutOfBounds
                       | Some w5 \<Rightarrow>
                          (case advertise_others_to_new os (peer_list s1) p w5 of
                             None \<Rightarrow> OutOfBounds
                           | Some w6 \<Rightarrow>
                              (case send_vectors os (peer_sock_fd p) (peer_id p) p
                                      (vectors_count p) 0 w6 of
                                 None \<Rightarrow> OutOfBounds
                               | Some w7 \<Rightarrow>
                                   Returns (0, s1\<lparr>cur_id := cur_id s1 + 1,
                                                   peer_list := peer_list s1 @ [p]\<rparr>,
                                            debug os (s1\<lparr>cur_id := cur_id s1 + 1\<rparr>)
                                              ''new peer id = %ld'' w7)))))))"
  using acc
  by (simp add: ivshmem_server_handle_new_conn_def sys_fst Let_def new_peer_def
      g_malloc0_peer_def case_prod_beta split: option.split)

lemma send_vectors_Some_bound:
  "send_vectors os sock ident src count i w = Some w' \<Longrightarrow> i \<le> count \<Longrightarrow>
   i \<le> length (vectors src) \<Longrightarrow> count \<le> length (vectors src)"
proof (induction os sock ident src count i w rule: send_vectors.induct)
  case (1 os sock ident src count i w)
  show ?case
  proof (cases "i < count")
    case True
    with 1(2) have ne: "vector_at src i \<noteq> None"
      by (subst (asm) send_vectors.simps) (auto split: option.splits)
    then have lt: "i < length (vectors src)" by (simp add: vector_at_def split: if_splits)
    then have at: "vector_at src i = Some (vectors src ! i)" by (simp add: vector_at_def)
    from 1(2) True at have
      "send_vectors os sock ident src count (i + 1)
         (snd (ivshmem_server_send_one_msg os w sock ident (vectors src ! i))) = Some w'"
      by (subst (asm) send_vectors.simps) simp
    from 1(1)[OF True at this] True lt show ?thesis by simp
  next
    case False
    with 1(3,4) show ?thesis by simp
  qed
qed

lemma advertise_others_to_new_Some_bound:
  "advertise_others_to_new os others p w = Some w' \<Longrightarrow>
   \<forall>q\<in>set others. vectors_count p \<le> length (vectors q)"
proof (induction others arbitrary: w)
  case Nil
  then show ?case by simp
next
  case (Cons q others)
  from Cons.prems obtain w1 where
    a: "send_vectors os (peer_sock_fd p) (peer_id q) q (vectors_count p) 0 w = Some w1"
    and b: "advertise_others_to_new os others p w1 = Some w'"
    by (auto split: option.splits)
  from send_vectors_Some_bound[OF a] Cons.IH[OF b] show ?case by simp
qed

lemma filter_nonneg_butlast:
  fixes xs :: "int list"
  assumes "xs \<noteq> []" "\<forall>r\<in>set (butlast xs). 0 \<le> r" "last xs < 0"
  shows "filter (\<lambda>r. 0 \<le> r) xs = butlast xs"
proof -
  from assms(1) have "xs = butlast xs @ [last xs]" by simp
  then have "filter (\<lambda>r. 0 \<le> r) xs = filter (\<lambda>r. 0 \<le> r) (butlast xs @ [last xs])" by simp
  also have "\<dots> = butlast xs" using assms(2,3) by simp
  finally show ?thesis .
qed

lemma new_peer_sel [simp]:
  "peer_sock_fd (new_peer cap fd c n vs) = fd" "peer_id (new_peer cap fd c n vs) = c"
  "vectors_count (new_peer cap fd c n vs) = n"
  "vectors (new_peer cap fd c n vs) = vs @ replicate (cap - length vs) 0"
  by (simp_all add: new_peer_def)

lemma create_eventfds_new_peer:
  assumes "create_eventfds os s (new_peer cap fd c n []) w 0 = Some (ok, i, p, w')"
  obtains evs where "trace w' = trace w @ evs" "map fst evs = replicate (length evs) Eventfd"
    "p = new_peer cap fd c n (map snd evs)" "length evs \<le> cap"
    "ok \<longrightarrow> i = n \<and> length evs = n \<and> (\<forall>r\<in>set (map snd evs). 0 \<le> r)"
    "\<not> ok \<longrightarrow> i < n \<and> length evs = Suc i \<and>
        (\<forall>r\<in>set (butlast (map snd evs)). 0 \<le> r) \<and> last (map snd evs) < 0"
proof -
  let ?p0 = "new_peer cap fd c n []"
  have "0 \<le> vectors_count ?p0" "0 \<le> length (vectors ?p0)" by simp_all
  from create_eventfds_res[OF assms this] obtain evs where
    e1: "trace w' = trace w @ evs" and e2: "map fst evs = replicate (length evs) Eventfd"
    and e3: "0 + length evs \<le> length (vectors ?p0)"
    and e4: "p = ?p0\<lparr>vectors := take 0 (vectors ?p0) @ map snd evs @
                                  drop (0 + length evs) (vectors ?p0)\<rparr>"
    and e5: "ok \<longrightarrow> i = vectors_count ?p0 \<and> length evs = vectors_count ?p0 - 0 \<and>
            (\<forall>r\<in>set (map snd evs). 0 \<le> r)"
    and e6: "\<not> ok \<longrightarrow> i < vectors_count ?p0 \<and> 0 \<le> i \<and> length evs = Suc (i - 0) \<and>
            (\<forall>r\<in>set (butlast (map snd evs)). 0 \<le> r) \<and> last (map snd evs) < 0"
    by blast
  show thesis
  proof (rule that[of evs])
    show "trace w' = trace w @ evs" by (rule e1)
    show "map fst evs = replicate (length evs) Eventfd" by (rule e2)
    show "length evs \<le> cap" using e3 by simp
    show "p = new_peer cap fd c n (map snd evs)" using e4 by (simp add: new_peer_def)
    show "ok \<longrightarrow> i = n \<and> length evs = n \<and> (\<forall>r\<in>set (map snd evs). 0 \<le> r)"
      using e5 by simp
    show "\<not> ok \<longrightarrow> i < n \<and> length evs = Suc i \<and>
        (\<forall>r\<in>set (butlast (map snd evs)). 0 \<le> r) \<and> last (map snd evs) < 0"
      using e6 by simp
  qed
qed

lemma handle_new_conn_returns [consumes 2, case_names success failure]:
  fixes h os s w
  defines "newfd \<equiv> fst (os (trace w) (Accept4 (sock_fd s)))"
  assumes acc: "0 \<le> newfd"
    and r: "ivshmem_server_handle_new_conn h os s w = Returns (ret, s', w')"
  obtains
    (success) c p evE evI evR where
      "get_unused_id s = Some (s\<lparr>cur_id := c\<rparr>)" "c \<notin> peer_id ` set (peer_list s)"
      "p = new_peer (IVSHMEM_SERVER_MAX_VECTORS h) newfd c (n_vectors s) (map snd evE)"
      "map fst evE = replicate (length evE) Eventfd"
      "trace w' = trace w @ (Accept4 (sock_fd s), newfd) # (G_malloc0, 0) # evE @ evI @ evR"
      "ret = 0" "s' = s\<lparr>cur_id := c + 1, peer_list := peer_list s @ [p]\<rparr>"
      "length evE = n_vectors s" "\<forall>r\<in>set (map snd evE). 0 \<le> r"
      "\<forall>q\<in>set (peer_list s). n_vectors s \<le> length (vectors q)"
      "map fst evI = initial_info h s p" "\<forall>e\<in>set evI. 0 < snd e"
      "map fst evR =
          concat (map (\<lambda>q. advertisement (peer_sock_fd q) c (take (n_vectors s) (vectors p)))
                    (peer_list s)) @
          concat (map (\<lambda>q. advertisement newfd (peer_id q) (take (n_vectors s) (vectors q)))
                    (peer_list s)) @
          advertisement newfd c (take (n_vectors s) (vectors p))"
      "n_vectors s \<le> IVSHMEM_SERVER_MAX_VECTORS h"
      "take (n_vectors s) (vectors p) = map snd evE"
  | (failure) c p evE evI evR where
      "get_unused_id s = Some (s\<lparr>cur_id := c\<rparr>)" "c \<notin> peer_id ` set (peer_list s)"
      "p = new_peer (IVSHMEM_SERVER_MAX_VECTORS h) newfd c (n_vectors s) (map snd evE)"
      "map fst evE = replicate (length evE) Eventfd"
      "trace w' = trace w @ (Accept4 (sock_fd s), newfd) # (G_malloc0, 0) # evE @ evI @ evR"
      "ret = - 1" "s' = s\<lparr>cur_id := c + 1\<rparr>"
      "evI = [] \<and> evE \<noteq> [] \<and> length evE \<le> n_vectors s \<and>
           (\<forall>r\<in>set (butlast (map snd evE)). 0 \<le> r) \<and> last (map snd evE) < 0
         \<or> evI \<noteq> [] \<and> length evE = n_vectors s \<and> (\<forall>r\<in>set (map snd evE). 0 \<le> r) \<and>
           map fst evI = take (length evI) (initial_info h s p) \<and>
           snd (last evI) \<le> 0 \<and> (\<forall>e\<in>set (butlast evI). 0 < snd e)"
      "map fst evR =
          map Close (rev (filter (\<lambda>r. 0 \<le> r) (map snd evE))) @ [Close newfd, G_free]"
proof -
  let ?cap = "IVSHMEM_SERVER_MAX_VECTORS h"
  note unf = handle_new_conn_accepted[where os = os and w = w and s = s and h = h,
      OF acc[unfolded newfd_def], folded newfd_def]
  from r unf obtain s1 where g: "get_unused_id s = Some s1"
    by (cases "get_unused_id s") simp_all
  from get_unused_id_Some[OF g] obtain c where
    s1: "s1 = s\<lparr>cur_id := c\<rparr>" and c: "c \<notin> peer_id ` set (peer_list s)" by blast
  let ?w2 = "lib os (debug os s ''accept()=%d'' (snd (sys os w (Accept4 (sock_fd s))))) G_malloc0"
  let ?s2 = "s\<lparr>cur_id := c + 1\<rparr>"
  have t2: "trace ?w2 = trace w @ [(Accept4 (sock_fd s), newfd), (G_malloc0, 0)]"
    by (simp add: lib_trace sys_trace newfd_def)
  from r unf g s1 obtain ok i p w3 where
    ce: "create_eventfds os ?s2 (new_peer ?cap newfd c (n_vectors s) []) ?w2 0 = Some (ok, i, p, w3)"
    by (cases "create_eventfds os ?s2 (new_peer ?cap newfd c (n_vectors s) []) ?w2 0") auto
  from ce obtain evE where
    t3: "trace w3 = trace ?w2 @ evE"
    and cE: "map fst evE = replicate (length evE) Eventfd"
    and p: "p = new_peer ?cap newfd c (n_vectors s) (map snd evE)"
    and lcap: "length evE \<le> ?cap"
    and ok: "ok \<longrightarrow> i = n_vectors s \<and> length evE = n_vectors s \<and> (\<forall>r\<in>set (map snd evE). 0 \<le> r)"
    and nok: "\<not> ok \<longrightarrow> i < n_vectors s \<and> length evE = Suc i \<and>
            (\<forall>r\<in>set (butlast (map snd evE)). 0 \<le> r) \<and> last (map snd evE) < 0"
    by (rule create_eventfds_new_peer)
  have pv: "vectors p = map snd evE @ replicate (?cap - length evE) 0"
    "vectors_count p = n_vectors s" "peer_sock_fd p = newfd" "peer_id p = c"
    by (simp_all add: p)
  have lv: "length (vectors p) = ?cap" using lcap by (simp add: pv)
  show ?thesis
  proof (cases ok)
    case False
    with nok have n: "i < n_vectors s" "length evE = Suc i"
      "\<forall>r\<in>set (butlast (map snd evE)). 0 \<le> r" "last (map snd evE) < 0" by simp_all
    from n(2) have ne: "evE \<noteq> []" by auto
    have "i \<le> length (vectors p)" using n(2) lcap lv by simp
    from handshake_fail_res[OF this, of os ?s2 newfd w3] obtain w4 evR where
      f: "handshake_fail os ?s2 p newfd i w3 = Returns (- 1, ?s2, w4)"
      and t4: "trace w4 = trace w3 @ evR"
      and cR: "map fst evR = map Close (rev (take i (vectors p))) @ [Close newfd, G_free]"
      by blast
    from r unf g s1 ce False f have res: "ret = - 1" "s' = ?s2" "w' = w4" by simp_all
    have "take i (vectors p) = butlast (map snd evE)"
      using n(2) pv by (simp add: butlast_conv_take)
    also have "\<dots> = filter (\<lambda>r. 0 \<le> r) (map snd evE)"
      using filter_nonneg_butlast[of "map snd evE"] ne n(3,4) by simp
    finally have tk: "take i (vectors p) = filter (\<lambda>r. 0 \<le> r) (map snd evE)" .
    have f1: "get_unused_id s = Some (s\<lparr>cur_id := c\<rparr>)" using g s1 by simp
    have f5: "trace w' = trace w @ (Accept4 (sock_fd s), newfd) # (G_malloc0, 0) # evE @ [] @ evR"
      using res t4 t3 t2 by simp
    have f9: "map fst evR =
        map Close (rev (filter (\<lambda>r. 0 \<le> r) (map snd evE))) @ [Close newfd, G_free]"
      using cR tk by simp
    have "length evE \<le> n_vectors s" using n(1,2) by simp
    then have f8: "[] = [] \<and> evE \<noteq> [] \<and> length evE \<le> n_vectors s \<and>
           (\<forall>r\<in>set (butlast (map snd evE)). 0 \<le> r) \<and> last (map snd evE) < 0
         \<or> ([]::event list) \<noteq> [] \<and> length evE = n_vectors s \<and> (\<forall>r\<in>set (map snd evE). 0 \<le> r) \<and>
           map fst ([]::event list) = take (length ([]::event list)) (initial_info h s p) \<and>
           snd (last ([]::event list)) \<le> 0 \<and> (\<forall>e\<in>set (butlast ([]::event list)). 0 < snd e)"
      using ne n(3,4) by simp
    show ?thesis
      by (rule failure[OF f1 c p cE f5 res(1) res(2) f8 f9])
  next
    case True
    with ok have o: "i = n_vectors s" "length evE = n_vectors s" "\<forall>r\<in>set (map snd evE). 0 \<le> r"
      by simp_all
    have ncap: "n_vectors s \<le> ?cap" using o(2) lcap by simp
    have tkn: "take (n_vectors s) (vectors p) = map snd evE" using o(2) pv by simp
    obtain ret4 w4 where si: "ivshmem_server_send_initial_info h os ?s2 p w3 = (ret4, w4)"
      by fastforce
    from send_initial_info_res[OF si] obtain evI where
      t4: "trace w4 = trace w3 @ evI"
      and cI: "ret4 = 0 \<and> map fst evI = initial_info h s p \<and> (\<forall>e\<in>set evI. 0 < snd e) \<or>
          ret4 = - 1 \<and> evI \<noteq> [] \<and> map fst evI = take (length evI) (initial_info h s p) \<and>
          snd (last evI) \<le> 0 \<and> (\<forall>e\<in>set (butlast evI). 0 < snd e)"
      by (auto simp: initial_info_def)
    show ?thesis
    proof (cases "ret4 < 0")
      case neg: True
      with cI have i1: "evI \<noteq> []" "map fst evI = take (length evI) (initial_info h s p)"
        "snd (last evI) \<le> 0" "\<forall>e\<in>set (butlast evI). 0 < snd e"
        by auto
      let ?w4 = "debug os ?s2 ''cannot send initial info'' w4"
      have "i \<le> length (vectors p)" using o ncap lv by simp
      from handshake_fail_res[OF this, of os ?s2 newfd ?w4] obtain w5 evR where
        f: "handshake_fail os ?s2 p newfd i ?w4 = Returns (- 1, ?s2, w5)"
        and t5: "trace w5 = trace ?w4 @ evR"
        and cR: "map fst evR = map Close (rev (take i (vectors p))) @ [Close newfd, G_free]"
        by blast
      from r unf g s1 ce True si neg f have res: "ret = - 1" "s' = ?s2" "w' = w5" by simp_all
      have tk: "take i (vectors p) = filter (\<lambda>r. 0 \<le> r) (map snd evE)"
        using o tkn by simp
      have f1: "get_unused_id s = Some (s\<lparr>cur_id := c\<rparr>)" using g s1 by simp
      have f5: "trace w' = trace w @ (Accept4 (sock_fd s), newfd) # (G_malloc0, 0) # evE @ evI @ evR"
        using res t5 t4 t3 t2 by simp
      have f9: "map fst evR =
          map Close (rev (filter (\<lambda>r. 0 \<le> r) (map snd evE))) @ [Close newfd, G_free]"
        using cR tk by simp
      have f8: "evI = [] \<and> evE \<noteq> [] \<and> length evE \<le> n_vectors s \<and>
           (\<forall>r\<in>set (butlast (map snd evE)). 0 \<le> r) \<and> last (map snd evE) < 0
         \<or> evI \<noteq> [] \<and> length evE = n_vectors s \<and> (\<forall>r\<in>set (map snd evE). 0 \<le> r) \<and>
           map fst evI = take (length evI) (initial_info h s p) \<and>
           snd (last evI) \<le> 0 \<and> (\<forall>e\<in>set (butlast evI). 0 < snd e)"
        using i1 o(2,3) by simp
      show ?thesis
        by (rule failure[OF f1 c p cE f5 res(1) res(2) f8 f9])
    next
      case nonneg: False
      with cI have i0: "map fst evI = initial_info h s p" and i0': "\<forall>e\<in>set evI. 0 < snd e"
        by auto
      have le: "vectors_count p \<le> length (vectors p)" using pv(2) ncap lv by simp
      from advertise_new_to_others_ok[OF le, of os "peer_list s" w4] obtain w5 ev1 where
        a1: "advertise_new_to_others os (peer_list s) p w4 = Some w5"
        and t5: "trace w5 = trace w4 @ ev1"
        and c1: "map fst ev1 =
          concat (map (\<lambda>q. advertisement (peer_sock_fd q) c (take (n_vectors s) (vectors p)))
                    (peer_list s))"
        using pv(2,4) by (auto simp: advertisement_def)
      from r unf g s1 ce True si nonneg a1
      obtain w6 where a2: "advertise_others_to_new os (peer_list s) p w5 = Some w6"
        by (cases "advertise_others_to_new os (peer_list s) p w5") simp_all
      from advertise_others_to_new_Some_bound[OF a2]
      have bnd: "\<forall>q\<in>set (peer_list s). n_vectors s \<le> length (vectors q)"
        using pv by simp
      then have "\<forall>q\<in>set (peer_list s). vectors_count p \<le> length (vectors q)"
        using pv by simp
      from advertise_others_to_new_ok[OF this, of os w5] a2 obtain ev2 where
        t6: "trace w6 = trace w5 @ ev2"
        and c2: "map fst ev2 =
          concat (map (\<lambda>q. advertisement newfd (peer_id q) (take (n_vectors s) (vectors q)))
                    (peer_list s))"
        using pv(2,3) by (auto simp: advertisement_def)
      from send_vectors_ok[OF le, of os newfd c 0 w6] obtain w7 ev3 where
        a3: "send_vectors os newfd c p (vectors_count p) 0 w6 = Some w7"
        and t7: "trace w7 = trace w6 @ ev3"
        and c3: "map fst ev3 = advertisement newfd c (take (n_vectors s) (vectors p))"
        using pv(2) by (auto simp: advertisement_def)
      from r unf g s1 ce True si nonneg a1 a2 a3 pv(3,4)
      have res: "ret = 0" "s' = s\<lparr>cur_id := c + 1, peer_list := peer_list s @ [p]\<rparr>"
        "trace w' = trace w7"
        by auto
      have f1: "get_unused_id s = Some (s\<lparr>cur_id := c\<rparr>)" using g s1 by simp
      have f5: "trace w' = trace w @ (Accept4 (sock_fd s), newfd) # (G_malloc0, 0) # evE @ evI @
          (ev1 @ ev2 @ ev3)"
        using res t7 t6 t5 t4 t3 t2 by simp
      have f12: "map fst (ev1 @ ev2 @ ev3) =
          concat (map (\<lambda>q. advertisement (peer_sock_fd q) c (take (n_vectors s) (vectors p)))
                    (peer_list s)) @
          concat (map (\<lambda>q. advertisement newfd (peer_id q) (take (n_vectors s) (vectors q)))
                    (peer_list s)) @
          advertisement newfd c (take (n_vectors s) (vectors p))"
        using c1 c2 c3 by simp
      show ?thesis
        by (rule success[OF f1 c p cE f5 res(1) res(2) o(2) o(3) bnd i0 i0' f12 ncap tkn])
    qed
  qed
qed

lemma handle_new_conn_not_returns:
  assumes "\<forall>x. ivshmem_server_handle_new_conn h os s w \<noteq> Returns x"
  shows "(ivshmem_server_handle_new_conn h os s w = Diverges \<and> get_unused_id s = None) \<or>
         (ivshmem_server_handle_new_conn h os s w = OutOfBounds \<and>
          (IVSHMEM_SERVER_MAX_VECTORS h < n_vectors s \<or>
           (\<exists>q\<in>set (peer_list s). length (vectors q) < n_vectors s)))"
proof -
  let ?cap = "IVSHMEM_SERVER_MAX_VECTORS h"
  let ?newfd = "fst (os (trace w) (Accept4 (sock_fd s)))"
  have acc: "0 \<le> ?newfd"
    using assms handle_new_conn_accept_failed[of os w s h] by (cases "?newfd < 0") auto
  note unf = handle_new_conn_accepted[where os = os and w = w and s = s and h = h, OF acc]
  show ?thesis
  proof (cases "get_unused_id s")
    case None
    then show ?thesis using unf by simp
  next
    case (Some s1)
    from get_unused_id_Some[OF Some] obtain c where s1: "s1 = s\<lparr>cur_id := c\<rparr>" by blast
    let ?w2 = "lib os (debug os s ''accept()=%d'' (snd (sys os w (Accept4 (sock_fd s))))) G_malloc0"
    let ?s2 = "s\<lparr>cur_id := c + 1\<rparr>"
    show ?thesis
    proof (cases "create_eventfds os ?s2 (new_peer ?cap ?newfd c (n_vectors s) []) ?w2 0")
      case None
      from create_eventfds_None[OF None] have "?cap < n_vectors s" by simp
      moreover have "ivshmem_server_handle_new_conn h os s w = OutOfBounds"
        using unf Some s1 None by simp
      ultimately show ?thesis by simp
    next
      case ce0: (Some x)
      obtain ok i p w3 where x: "x = (ok, i, p, w3)" using prod_cases4 by blast
      note ce = ce0[unfolded x]
      from ce obtain evE where
        "trace w3 = trace ?w2 @ evE" "map fst evE = replicate (length evE) Eventfd"
        and p: "p = new_peer ?cap ?newfd c (n_vectors s) (map snd evE)"
        and lcap: "length evE \<le> ?cap"
        and ok: "ok \<longrightarrow> i = n_vectors s \<and> length evE = n_vectors s \<and>
                  (\<forall>r\<in>set (map snd evE). 0 \<le> r)"
        and nok: "\<not> ok \<longrightarrow> i < n_vectors s \<and> length evE = Suc i \<and>
          (\<forall>r\<in>set (butlast (map snd evE)). 0 \<le> r) \<and> last (map snd evE) < 0"
        by (rule create_eventfds_new_peer)
      have pv: "vectors_count p = n_vectors s" by (simp add: p)
      have lv: "length (vectors p) = ?cap" using lcap by (simp add: p)
      have il: "i \<le> length (vectors p)" using ok nok lcap lv by (cases ok) simp_all
      have ok': "ok \<longrightarrow> i = n_vectors s \<and> length evE = n_vectors s" using ok by simp
      obtain ret4 w4 where si: "ivshmem_server_send_initial_info h os ?s2 p w3 = (ret4, w4)"
        by fastforce
      have nofail: "ok \<and> \<not> ret4 < 0"
      proof (rule ccontr)
        assume "\<not> (ok \<and> \<not> ret4 < 0)"
        then consider "\<not> ok" | "ok" "ret4 < 0" by blast
        then show False
        proof cases
          case 1
          have "ivshmem_server_handle_new_conn h os s w = handshake_fail os ?s2 p ?newfd i w3"
            using unf \<open>get_unused_id s = Some s1\<close> s1 ce 1 by simp
          moreover from handshake_fail_res[OF il, of os ?s2 ?newfd w3]
          obtain x where "handshake_fail os ?s2 p ?newfd i w3 = Returns x" by blast
          ultimately show False using assms by simp
        next
          case 2
          let ?w4 = "debug os ?s2 ''cannot send initial info'' w4"
          have "ivshmem_server_handle_new_conn h os s w = handshake_fail os ?s2 p ?newfd i ?w4"
            using unf \<open>get_unused_id s = Some s1\<close> s1 ce si 2 by simp
          moreover from handshake_fail_res[OF il, of os ?s2 ?newfd ?w4]
          obtain x where "handshake_fail os ?s2 p ?newfd i ?w4 = Returns x" by blast
          ultimately show False using assms by simp
        qed
      qed
      have le: "vectors_count p \<le> length (vectors p)" using ok' nofail pv lcap lv by simp
      from advertise_new_to_others_ok[OF le, of os "peer_list s" w4] obtain w5 where
        a1: "advertise_new_to_others os (peer_list s) p w4 = Some w5" by blast
      show ?thesis
      proof (cases "advertise_others_to_new os (peer_list s) p w5")
        case None
        from advertise_others_to_new_None[OF None] pv
        have "\<exists>q\<in>set (peer_list s). length (vectors q) < n_vectors s" by simp
        moreover have "ivshmem_server_handle_new_conn h os s w = OutOfBounds"
          using unf \<open>get_unused_id s = Some s1\<close> s1 ce si nofail a1 None by simp
        ultimately show ?thesis by simp
      next
        case (Some w6)
        from send_vectors_ok[OF le, of os "peer_sock_fd p" "peer_id p" 0 w6] obtain w7 where
          a3: "send_vectors os (peer_sock_fd p) (peer_id p) p (vectors_count p) 0 w6 = Some w7"
          by blast
        have "\<exists>x. ivshmem_server_handle_new_conn h os s w = Returns x"
          using unf \<open>get_unused_id s = Some s1\<close> s1 ce si nofail a1 Some a3 by simp
        with assms show ?thesis by simp
      qed
    qed
  qed
qed

lemma handle_new_conn_state:
  assumes "ivshmem_server_handle_new_conn h os s w = Returns (ret, s', w')"
  shows "s' = s \<and> ret = - 1 \<or>
         (\<exists>c. c \<notin> peer_id ` set (peer_list s) \<and>
            (s' = s\<lparr>cur_id := c + 1\<rparr> \<and> ret = - 1 \<or>
             (\<exists>fd vs. s' = s\<lparr>cur_id := c + 1,
                   peer_list := peer_list s @
                     [new_peer (IVSHMEM_SERVER_MAX_VECTORS h) fd c (n_vectors s) vs]\<rparr> \<and>
                 ret = 0 \<and> 0 \<le> fd \<and> length vs = n_vectors s \<and> (\<forall>v\<in>set vs. 0 \<le> v) \<and>
                 n_vectors s \<le> IVSHMEM_SERVER_MAX_VECTORS h)))"
proof (cases "fst (os (trace w) (Accept4 (sock_fd s))) < 0")
  case True
  from handle_new_conn_accept_failed[where os = os and w = w and s = s and h = h, OF True] assms
  show ?thesis by simp
next
  case False
  then have acc: "0 \<le> fst (os (trace w) (Accept4 (sock_fd s)))" by simp
  from acc assms show ?thesis
  proof (cases rule: handle_new_conn_returns)
    case (success c p evE evI evR)
    then have "\<exists>fd vs. s' = s\<lparr>cur_id := c + 1,
                   peer_list := peer_list s @
                     [new_peer (IVSHMEM_SERVER_MAX_VECTORS h) fd c (n_vectors s) vs]\<rparr> \<and>
                 ret = 0 \<and> 0 \<le> fd \<and> length vs = n_vectors s \<and> (\<forall>v\<in>set vs. 0 \<le> v) \<and>
                 n_vectors s \<le> IVSHMEM_SERVER_MAX_VECTORS h"
      using acc
      by (intro exI[of _ "fst (os (trace w) (Accept4 (sock_fd s)))"] exI[of _ "map snd evE"]) simp
    with success(2) show ?thesis by blast
  next
    case (failure c p evE evI evR)
    then show ?thesis by blast
  qed
qed

lemma close_vectors_Some_bound:
  "close_vectors os p i w = Some w' \<Longrightarrow> i \<le> vectors_count p \<Longrightarrow>
   i \<le> length (vectors p) \<Longrightarrow> vectors_count p \<le> length (vectors p)"
proof (induction os p i w rule: close_vectors.induct)
  case (1 os p i w)
  show ?case
  proof (cases "i < vectors_count p")
    case True
    with 1(2) have ne: "vector_at p i \<noteq> None"
      by (subst (asm) close_vectors.simps) (auto split: option.splits)
    then have lt: "i < length (vectors p)" by (simp add: vector_at_def split: if_splits)
    then have at: "vector_at p i = Some (vectors p ! i)" by (simp add: vector_at_def)
    from 1(2) True at have
      "close_vectors os p (i + 1) (snd (sys os w (Close (vectors p ! i)))) = Some w'"
      by (subst (asm) close_vectors.simps) simp
    from 1(1)[OF True at this] True lt show ?thesis by simp
  next
    case False
    with 1(3,4) show ?thesis by simp
  qed
qed

lemma free_peer_returns [consumes 1]:
  assumes "ivshmem_server_free_peer os s i w = Returns (s', w')"
  obtains rc evB evV where
    "i < length (peer_list s)"
    "s' = s\<lparr>peer_list := remove_nth i (peer_list s)\<rparr>"
    "vectors_count (peer_list s ! i) \<le> length (vectors (peer_list s ! i))"
    "trace w' = trace w @ (Close (peer_sock_fd (peer_list s ! i)), rc) # evB @ evV @ [(G_free, 0)]"
    "map fst evB =
       map (\<lambda>q. Sendmsg (peer_sock_fd q) (peer_id (peer_list s ! i)) None)
         (remove_nth i (peer_list s))"
    "map fst evV =
       map Close (take (vectors_count (peer_list s ! i)) (vectors (peer_list s ! i)))"
proof -
  let ?p = "peer_list s ! i"
  let ?w1 = "snd (sys os (debug os s ''free peer %ld'' w) (Close (peer_sock_fd ?p)))"
  let ?ps = "remove_nth i (peer_list s)"
  let ?w2 = "advertise_deletion os ?ps (peer_id ?p) ?w1"
  from assms have lt: "i < length (peer_list s)"
    by (cases "i < length (peer_list s)") (simp_all add: ivshmem_server_free_peer_def)
  have unf: "ivshmem_server_free_peer os s i w =
      (case close_vectors os ?p 0 ?w2 of None \<Rightarrow> OutOfBounds
       | Some w3 \<Rightarrow> Returns (s\<lparr>peer_list := ?ps\<rparr>, lib os w3 G_free))"
    using lt by (simp add: ivshmem_server_free_peer_def Let_def)
  with assms obtain w3 where cv: "close_vectors os ?p 0 ?w2 = Some w3"
    by (cases "close_vectors os ?p 0 ?w2") simp_all
  with assms unf have res: "s' = s\<lparr>peer_list := ?ps\<rparr>" "w' = lib os w3 G_free" by simp_all
  from close_vectors_Some_bound[OF cv] have le: "vectors_count ?p \<le> length (vectors ?p)" by simp
  from close_vectors_ok[OF le, of os 0 ?w2] cv obtain evV where
    t3: "trace w3 = trace ?w2 @ evV"
    and cV: "map fst evV = map Close (take (vectors_count ?p) (vectors ?p))"
    by auto
  from advertise_deletion_trace[of os ?ps "peer_id ?p" ?w1] obtain evB where
    t2: "trace ?w2 = trace ?w1 @ evB"
    and cB: "map fst evB = map (\<lambda>q. Sendmsg (peer_sock_fd q) (peer_id ?p) None) ?ps"
    by blast
  have t: "trace w' = trace w @
      (Close (peer_sock_fd ?p), fst (os (trace w) (Close (peer_sock_fd ?p)))) # evB @ evV @ [(G_free, 0)]"
    using res t3 t2 by (simp add: lib_trace sys_trace)
  show thesis by (rule that[OF lt res(1) le t cB cV])
qed

lemma free_peer_total:
  assumes "i < length (peer_list s)"
    and "vectors_count (peer_list s ! i) \<le> length (vectors (peer_list s ! i))"
  shows "\<exists>x. ivshmem_server_free_peer os s i w = Returns x"
proof -
  let ?p = "peer_list s ! i"
  from close_vectors_ok[OF assms(2)] obtain w3 where
    "close_vectors os ?p 0
       (advertise_deletion os (remove_nth i (peer_list s)) (peer_id ?p)
          (snd (sys os (debug os s ''free peer %ld'' w) (Close (peer_sock_fd ?p))))) = Some w3"
    by blast
  with assms(1) show ?thesis
    by (simp add: ivshmem_server_free_peer_def Let_def)
qed

lemma free_peer_not_Diverges: "ivshmem_server_free_peer os s i w \<noteq> Diverges"
  by (simp add: ivshmem_server_free_peer_def Let_def split: option.splits)

lemma distinct_map_remove_nth:
  "distinct (map f xs) \<Longrightarrow> distinct (map f (remove_nth i xs))"
proof (cases "i < length xs")
  case True
  assume d: "distinct (map f xs)"
  have "xs = take i xs @ xs ! i # drop (Suc i) xs"
    using True by (simp add: id_take_nth_drop [symmetric])
  then have "map f xs = map f (take i xs) @ f (xs ! i) # map f (drop (Suc i) xs)"
    by (metis list.simps(9) map_append)
  with d have "distinct (map f (take i xs) @ f (xs ! i) # map f (drop (Suc i) xs))" by simp
  then show ?thesis by (simp add: remove_nth_def)
next
  case False
  assume "distinct (map f xs)"
  with False show ?thesis by (simp add: remove_nth_def)
qed

lemma set_remove_nth: "set (remove_nth i xs) \<subseteq> set xs"
  by (auto simp: remove_nth_def dest: in_set_takeD in_set_dropD)

lemma length_remove_nth: "i < length xs \<Longrightarrow> length (remove_nth i xs) = length xs - 1"
  by (simp add: remove_nth_def)

text \<open>What an operation may do to the server.\<close>

lemma free_peer_step:
  assumes "ivshmem_server_free_peer os s i w = Returns (s', w')"
  shows "i < length (peer_list s) \<and> s' = s\<lparr>peer_list := remove_nth i (peer_list s)\<rparr>"
  using assms by (cases rule: free_peer_returns) simp

lemma sweep_peers_step:
  "sweep_peers os fds maxfd s w i = Returns (s', w') \<Longrightarrow>
   \<exists>ps. s' = s\<lparr>peer_list := ps\<rparr> \<and> set ps \<subseteq> set (peer_list s) \<and>
        (distinct (map peer_id (peer_list s)) \<longrightarrow> distinct (map peer_id ps))"
proof (induction os fds maxfd s w i rule: sweep_peers.induct)
  case (1 os fds maxfd s w i)
  show ?case
  proof (cases "i < length (peer_list s)")
    case False
    with 1(3) have "s' = s" by (subst (asm) sweep_peers.simps) simp
    then show ?thesis by (intro exI[of _ "peer_list s"]) simp
  next
    case True
    let ?p = "peer_list s ! i"
    show ?thesis
    proof (cases "peer_sock_fd ?p < maxfd \<and> peer_sock_fd ?p \<in> fds")
      case ready: True
      let ?w0 = "debug os s ''peer->sock_fd=%d'' w"
      from 1(3) True ready obtain s1 w1 where
        f: "ivshmem_server_free_peer os s i ?w0 = Returns (s1, w1)"
        and r: "sweep_peers os fds maxfd s1 w1 i = Returns (s', w')"
        by (subst (asm) sweep_peers.simps)
           (auto simp: Let_def split: outcome.splits)
      from free_peer_step[OF f] have s1: "s1 = s\<lparr>peer_list := remove_nth i (peer_list s)\<rparr>"
        by simp
      from 1(1)[OF True refl refl ready f refl r] obtain ps where
        a: "s' = s1\<lparr>peer_list := ps\<rparr>" and b: "set ps \<subseteq> set (peer_list s1)"
        and c: "distinct (map peer_id (peer_list s1)) \<longrightarrow> distinct (map peer_id ps)"
        by blast
      have "s' = s\<lparr>peer_list := ps\<rparr>" using a s1 by simp
      moreover have "set ps \<subseteq> set (peer_list s)"
        using b s1 set_remove_nth[of i "peer_list s"] by auto
      moreover have "distinct (map peer_id (peer_list s)) \<longrightarrow> distinct (map peer_id ps)"
        using c s1 by (auto intro: distinct_map_remove_nth)
      ultimately show ?thesis by blast
    next
      case notready: False
      from 1(3) True notready
      have r: "sweep_peers os fds maxfd s (debug os s ''peer->sock_fd=%d'' w) (i + 1) =
          Returns (s', w')"
        by (subst (asm) sweep_peers.simps) (auto simp: Let_def)
      from 1(2)[OF True refl refl notready r] show ?thesis .
    qed
  qed
qed

lemma preserved_refl: "preserved h s s"
  by (simp add: preserved_def)

lemma preserved_trans: "preserved h s s1 \<Longrightarrow> preserved h s1 s2 \<Longrightarrow> preserved h s s2"
  by (simp add: preserved_def)

lemma handle_new_conn_preserved:
  assumes "ivshmem_server_handle_new_conn h os s w = Returns (ret, s', w')"
  shows "preserved h s s'"
proof -
  from handle_new_conn_state[OF assms] consider
    "s' = s" | c where "s' = s\<lparr>cur_id := c + 1\<rparr>"
    | c fd vs where "c \<notin> peer_id ` set (peer_list s)"
        "s' = s\<lparr>cur_id := c + 1, peer_list := peer_list s @
           [new_peer (IVSHMEM_SERVER_MAX_VECTORS h) fd c (n_vectors s) vs]\<rparr>"
        "length vs = n_vectors s" "n_vectors s \<le> IVSHMEM_SERVER_MAX_VECTORS h"
    by blast
  then show ?thesis
  proof cases
    case 1
    then show ?thesis by (simp add: preserved_def)
  next
    case 2
    then show ?thesis by (simp add: preserved_def ids_distinct_def vectors_ok_def)
  next
    case 3
    then show ?thesis
      by (auto simp: preserved_def ids_distinct_def vectors_ok_def)
  qed
qed

lemma free_peer_preserved:
  assumes "ivshmem_server_free_peer os s i w = Returns (s', w')"
  shows "preserved h s s'"
proof -
  from free_peer_step[OF assms] have s': "s' = s\<lparr>peer_list := remove_nth i (peer_list s)\<rparr>"
    by simp
  show ?thesis
    using set_remove_nth[of i "peer_list s"]
    by (auto simp: s' preserved_def ids_distinct_def vectors_ok_def
        intro: distinct_map_remove_nth)
qed

lemma sweep_peers_preserved:
  assumes "sweep_peers os fds maxfd s w i = Returns (s', w')"
  shows "preserved h s s'"
proof -
  from sweep_peers_step[OF assms] obtain ps where
    "s' = s\<lparr>peer_list := ps\<rparr>" "set ps \<subseteq> set (peer_list s)"
    "distinct (map peer_id (peer_list s)) \<longrightarrow> distinct (map peer_id ps)"
    by blast
  then show ?thesis
    by (auto simp: preserved_def ids_distinct_def vectors_ok_def)
qed

lemma handle_fds_cases:
  assumes "ivshmem_server_handle_fds h os s fds maxfd w = Returns (ret, s', w')"
  obtains
    (failed) w1 where "sock_fd s < maxfd" "sock_fd s \<in> fds"
      "ivshmem_server_handle_new_conn h os s w = Returns (- 1, s', w1)"
      "errno w1 \<noteq> EINTR" "ret = - 1"
      "w' = debug os s' ''ivshmem_server_handle_new_conn() failed'' w1"
  | (accepted) r s1 w1 where "sock_fd s < maxfd" "sock_fd s \<in> fds"
      "ivshmem_server_handle_new_conn h os s w = Returns (r, s1, w1)"
      "\<not> (r < 0 \<and> errno w1 \<noteq> EINTR)"
      "sweep_peers os fds maxfd s1 w1 0 = Returns (s', w')" "ret = 0"
  | (idle) "\<not> (sock_fd s < maxfd \<and> sock_fd s \<in> fds)"
      "sweep_peers os fds maxfd s w 0 = Returns (s', w')" "ret = 0"
proof (cases "sock_fd s < maxfd \<and> sock_fd s \<in> fds")
  case False
  with assms have "sweep_peers os fds maxfd s w 0 = Returns (s', w') \<and> ret = 0"
    by (auto simp: ivshmem_server_handle_fds_def split: outcome.splits)
  with False show ?thesis by (intro idle) simp_all
next
  case True
  with assms obtain r s1 w1 where
    hc: "ivshmem_server_handle_new_conn h os s w = Returns (r, s1, w1)"
    by (cases "ivshmem_server_handle_new_conn h os s w")
       (auto simp: ivshmem_server_handle_fds_def)
  show ?thesis
  proof (cases "r < 0 \<and> errno w1 \<noteq> EINTR")
    case f: True
    with assms True hc have e: "ret = - 1" "s' = s1"
      "w' = debug os s1 ''ivshmem_server_handle_new_conn() failed'' w1"
      by (auto simp: ivshmem_server_handle_fds_def)
    from handle_new_conn_state[OF hc] f have "r = - 1" by auto
    with True hc f e show ?thesis by (intro failed[of w1]) simp_all
  next
    case nf: False
    with assms True hc have "sweep_peers os fds maxfd s1 w1 0 = Returns (s', w') \<and> ret = 0"
      by (auto simp: ivshmem_server_handle_fds_def split: outcome.splits)
    with True hc nf show ?thesis by (intro accepted[of r s1 w1]) simp_all
  qed
qed

lemma handle_fds_preserved:
  assumes "ivshmem_server_handle_fds h os s fds maxfd w = Returns (ret, s', w')"
  shows "preserved h s s'"
  using assms
proof (cases rule: handle_fds_cases)
  case (failed w1)
  then show ?thesis by (auto dest: handle_new_conn_preserved)
next
  case (accepted r s1 w1)
  then show ?thesis
    by (blast intro: preserved_trans handle_new_conn_preserved sweep_peers_preserved)
next
  case idle
  then show ?thesis by (auto dest: sweep_peers_preserved)
qed

lemma run_preserved:
  "run h os ops s w = Returns (s', w') \<Longrightarrow> preserved h s s'"
proof (induction ops arbitrary: s w)
  case Nil
  then show ?case by (simp add: preserved_refl)
next
  case (Cons a ops)
  show ?case
  proof (cases a)
    case Connect
    with Cons.prems obtain r s1 w1 where
      a: "ivshmem_server_handle_new_conn h os s w = Returns (r, s1, w1)"
      and b: "run h os ops s1 w1 = Returns (s', w')"
      by (auto split: outcome.splits)
    from handle_new_conn_preserved[OF a] Cons.IH[OF b] show ?thesis
      by (rule preserved_trans)
  next
    case (Disconnect i)
    with Cons.prems obtain s1 w1 where
      a: "ivshmem_server_free_peer os s i w = Returns (s1, w1)"
      and b: "run h os ops s1 w1 = Returns (s', w')"
      by (auto split: outcome.splits)
    from free_peer_preserved[OF a] Cons.IH[OF b] show ?thesis
      by (rule preserved_trans)
  next
    case (Cycle fds maxfd)
    with Cons.prems obtain r s1 w1 where
      a: "ivshmem_server_handle_fds h os s fds maxfd w = Returns (r, s1, w1)"
      and b: "run h os ops s1 w1 = Returns (s', w')"
      by (auto split: outcome.splits)
    from handle_fds_preserved[OF a] Cons.IH[OF b] show ?thesis
      by (rule preserved_trans)
  qed
qed

lemma init_state:
  assumes "ivshmem_server_init h sock_path shmpath shmsize nvectors verb = (0, s)"
  shows "peer_list s = [] \<and> cur_id s = 0 \<and> n_vectors s = nvectors \<and> shm_size s = shmsize \<and>
         verbose s = verb \<and> unix_sock_path s = sock_path \<and> shm_path s = shmpath"
proof -
  let ?a = "int (length sock_path) < 0 \<or> int (sizeof_unix_sock_path h) \<le> int (length sock_path)"
  let ?b = "int (length shmpath) < 0 \<or> int (sizeof_shm_path h) \<le> int (length shmpath)"
  from assms have na: "\<not> ?a"
    by (cases ?a) (simp_all add: ivshmem_server_init_def snprintf_s_def Let_def)
  with assms have nb: "\<not> ?b"
    by (cases ?b) (simp_all add: ivshmem_server_init_def snprintf_s_def Let_def)
  from assms na nb show ?thesis
    by (auto simp: ivshmem_server_init_def snprintf_s_def Let_def zero_server_def)
qed

lemma start_state:
  assumes "ivshmem_server_start os s w = Returns (0, s', w')"
  shows "s' = s\<lparr>sock_fd := sock_fd s', shm_fd := shm_fd s'\<rparr> \<and> 0 \<le> sock_fd s' \<and> 0 \<le> shm_fd s'"
  using assms
  by (auto simp: ivshmem_server_start_def err_close_shm_def err_close_sock_def Let_def
      split: prod.splits if_splits option.splits)

lemma freshly_started_state:
  assumes "freshly_started h os sock_path shmpath shmsize nvectors verb wi s w"
  shows "peer_list s = [] \<and> cur_id s = 0 \<and> n_vectors s = nvectors \<and> 0 \<le> sock_fd s \<and>
         0 \<le> shm_fd s"
proof -
  from assms obtain s0 where
    i: "ivshmem_server_init h sock_path shmpath shmsize nvectors verb = (0, s0)"
    and st: "ivshmem_server_start os s0 wi = Returns (0, s, w)"
    by (auto simp: freshly_started_def split: prod.splits)
  from start_state[OF st] have "peer_list s = peer_list s0" "cur_id s = cur_id s0"
      "n_vectors s = n_vectors s0" "0 \<le> sock_fd s" "0 \<le> shm_fd s"
    by (metis server.select_convs server.surjective server.update_convs)+
  with init_state[OF i] show ?thesis by simp
qed

lemma handle_new_conn_success:
  assumes "ivshmem_server_handle_new_conn h os s w = Returns (0, s', w')"
  shows "\<exists>c fd vs. c \<notin> peer_id ` set (peer_list s) \<and>
     get_unused_id s = Some (s\<lparr>cur_id := c\<rparr>) \<and>
     s' = s\<lparr>cur_id := c + 1, peer_list := peer_list s @
            [new_peer (IVSHMEM_SERVER_MAX_VECTORS h) fd c (n_vectors s) vs]\<rparr> \<and>
     0 \<le> fd \<and> length vs = n_vectors s \<and> (\<forall>v\<in>set vs. 0 \<le> v)"
proof -
  let ?newfd = "fst (os (trace w) (Accept4 (sock_fd s)))"
  have acc: "0 \<le> ?newfd"
    using assms handle_new_conn_accept_failed[where os = os and w = w and s = s and h = h]
    by (cases "?newfd < 0") auto
  from acc assms show ?thesis
  proof (cases rule: handle_new_conn_returns)
    case (success c p evE evI evR)
    show ?thesis
      using success(1,2,3,7,8,9) acc
      by (intro exI[of _ c] exI[of _ ?newfd] exI[of _ "map snd evE"]) simp
  next
    case (failure c p evE evI evR)
    then show ?thesis by simp
  qed
qed

lemma handle_new_conn_in_bounds:
  assumes "\<forall>p\<in>set (peer_list s). n_vectors s \<le> length (vectors p)"
    and "n_vectors s \<le> IVSHMEM_SERVER_MAX_VECTORS h"
  shows "ivshmem_server_handle_new_conn h os s w \<noteq> OutOfBounds"
proof (cases "\<exists>x. ivshmem_server_handle_new_conn h os s w = Returns x")
  case True
  then show ?thesis by auto
next
  case False
  then have "\<forall>x. ivshmem_server_handle_new_conn h os s w \<noteq> Returns x" by simp
  from handle_new_conn_not_returns[OF this] assms show ?thesis by auto
qed

lemma handle_new_conn_next_id:
  assumes "ivshmem_server_handle_new_conn h os s w = Returns (0, s', w')"
    and "cur_id s \<notin> peer_id ` set (peer_list s)"
  shows "map peer_id (peer_list s') = map peer_id (peer_list s) @ [cur_id s] \<and>
         cur_id s' = cur_id s + 1"
proof -
  from handle_new_conn_success[OF assms(1)] obtain c fd vs where
    g: "get_unused_id s = Some (s\<lparr>cur_id := c\<rparr>)"
    and s': "s' = s\<lparr>cur_id := c + 1,
        peer_list := peer_list s @
          [new_peer (IVSHMEM_SERVER_MAX_VECTORS h) fd c (n_vectors s) vs]\<rparr>"
    by blast
  from get_unused_id_free[OF assms(2)] g have "s\<lparr>cur_id := c\<rparr> = s" by simp
  then have "cur_id (s\<lparr>cur_id := c\<rparr>) = cur_id s" by simp
  then have "c = cur_id s" by simp
  with s' show ?thesis by simp
qed

lemma calls_since_append:
  "trace w' = trace w @ evs \<Longrightarrow> calls_since w w' = map fst evs"
  by (simp add: calls_since_def events_since_def)

lemma events_since_append:
  "trace w' = trace w @ evs \<Longrightarrow> events_since w w' = evs"
  by (simp add: events_since_def)

lemma messages_to_append [simp]:
  "messages_to sock (xs @ ys) = messages_to sock xs @ messages_to sock ys"
  by (induction xs) simp_all

lemma messages_to_Close [simp]: "messages_to sock (map Close xs) = []"
  by (induction xs) simp_all

lemma messages_to_Eventfd [simp]: "messages_to sock (replicate n Eventfd) = []"
  by (induction n) simp_all

lemma messages_to_deletion:
  "messages_to sock (map (\<lambda>q. Sendmsg (f q) ident None) qs) =
     map (\<lambda>q. (ident, None)) (filter (\<lambda>q. f q = sock) qs)"
  by (induction qs) simp_all

lemma messages_to_advertisement:
  "messages_to sock (advertisement sk ident vs) =
     (if sk = sock then map (\<lambda>v. (ident, cmsg_of v)) vs else [])"
  by (induction vs) (simp_all add: advertisement_def)

lemma filter_same_key:
  "distinct (map f xs) \<Longrightarrow> x \<in> set xs \<Longrightarrow> filter (\<lambda>y. f y = f x) xs = [x]"
proof (induction xs)
  case Nil
  then show ?case by simp
next
  case (Cons a xs)
  show ?case
  proof (cases "a = x")
    case True
    with Cons.prems have "f x \<notin> f ` set xs" by simp
    then have "filter (\<lambda>y. f y = f x) xs = []"
      by (metis (mono_tags, lifting) filter_False image_eqI)
    with True show ?thesis by simp
  next
    case False
    with Cons.prems have "x \<in> set xs" "f a \<noteq> f x" by auto
    with Cons show ?thesis by simp
  qed
qed

lemma filter_no_key:
  "k \<notin> f ` set xs \<Longrightarrow> filter (\<lambda>y. f y = k) xs = []"
  by (metis (mono_tags, lifting) filter_False image_eqI)

lemma distinct_remove_nth_key:
  assumes "distinct (map f xs)" "i < length xs"
  shows "f (xs ! i) \<notin> f ` set (remove_nth i xs)"
proof -
  have "xs = take i xs @ xs ! i # drop (Suc i) xs"
    using assms(2) by (simp add: id_take_nth_drop [symmetric])
  then have "map f xs = map f (take i xs) @ f (xs ! i) # map f (drop (Suc i) xs)"
    by (metis list.simps(9) map_append)
  with assms(1) have "distinct (map f (take i xs) @ f (xs ! i) # map f (drop (Suc i) xs))"
    by simp
  then show ?thesis by (auto simp: remove_nth_def)
qed

lemma messages_to_concat:
  "messages_to sock (concat (map F qs)) = concat (map (\<lambda>q. messages_to sock (F q)) qs)"
  by (induction qs) simp_all

lemma concat_map_Nil: "concat (map (\<lambda>q. []) qs) = []"
  by (induction qs) simp_all

lemma concat_map_same_key:
  "distinct (map f xs) \<Longrightarrow> x \<in> set xs \<Longrightarrow>
   concat (map (\<lambda>y. if f y = f x then g else []) xs) = g"
proof (induction xs)
  case Nil
  then show ?case by simp
next
  case (Cons a xs)
  show ?case
  proof (cases "a = x")
    case True
    with Cons.prems have "f x \<notin> f ` set xs" by simp
    then have "\<forall>y\<in>set xs. f y \<noteq> f x" by (metis imageI)
    then have "map (\<lambda>y. if f y = f x then g else []) xs = map (\<lambda>y. []) xs"
      by (intro map_cong) simp_all
    with True show ?thesis by (simp add: concat_map_Nil)
  next
    case False
    with Cons.prems have "x \<in> set xs" "f a \<noteq> f x" by auto
    with Cons show ?thesis by simp
  qed
qed

lemma concat_map_no_key:
  "k \<notin> f ` set xs \<Longrightarrow> concat (map (\<lambda>y. if f y = k then g y else []) xs) = []"
proof -
  assume "k \<notin> f ` set xs"
  then have "\<forall>y\<in>set xs. f y \<noteq> k" by (metis imageI)
  then have "map (\<lambda>y. if f y = k then g y else []) xs = map (\<lambda>y. []) xs"
    by (intro map_cong) simp_all
  then show ?thesis by (simp add: concat_map_Nil)
qed

lemma map_cmsg_of_nonneg:
  "\<forall>v\<in>set vs. 0 \<le> v \<Longrightarrow> map (\<lambda>v. (i, cmsg_of v)) vs = map (\<lambda>v. (i, Some v)) vs"
  by (intro map_cong) (simp_all add: cmsg_of_def)

lemma messages_to_initial_info:
  "messages_to sock (initial_info h s p) =
     (if peer_sock_fd p = sock
      then [(IVSHMEM_PROTOCOL_VERSION h, None), (peer_id p, None), (- 1, cmsg_of (shm_fd s))]
      else [])"
  by (simp add: initial_info_def)

lemma fds_closed_append [simp]: "fds_closed (xs @ ys) = fds_closed xs @ fds_closed ys"
  by (induction xs) simp_all

lemma fds_closed_Close [simp]: "fds_closed (map Close xs) = xs"
  by (induction xs) simp_all

lemma fds_closed_Eventfd [simp]: "fds_closed (replicate n Eventfd) = []"
  by (induction n) simp_all

lemma fds_closed_sends: "\<forall>c\<in>set cs. is_send c \<Longrightarrow> fds_closed cs = []"
  by (induction cs) (auto simp: is_send_def split: syscall.splits)

lemma is_send_initial_info: "\<forall>c\<in>set (initial_info h s p). is_send c"
  by (simp add: initial_info_def is_send_def)

lemma is_send_advertisement: "\<forall>c\<in>set (advertisement sk i vs). is_send c"
  by (simp add: advertisement_def is_send_def)

lemma filter_is_send_all: "\<forall>c\<in>set cs. is_send c \<Longrightarrow> filter is_send cs = cs"
  by (induction cs) simp_all

lemma filter_is_send_Eventfd [simp]: "filter is_send (replicate n Eventfd) = []"
  by (induction n) (simp_all add: is_send_def)

lemma filter_is_send_Close [simp]: "filter is_send (map Close xs) = []"
  by (induction xs) (simp_all add: is_send_def)

lemma eventfds_created_append [simp]:
  "eventfds_created (xs @ ys) = eventfds_created xs @ eventfds_created ys"
  by (simp add: eventfds_created_def)

lemma eventfds_created_none:
  "Eventfd \<notin> set (map fst evs) \<Longrightarrow> eventfds_created evs = []"
  by (induction evs) (auto simp: eventfds_created_def)

lemma eventfds_created_all:
  "map fst evs = replicate (length evs) Eventfd \<Longrightarrow>
   eventfds_created evs = filter (\<lambda>r. 0 \<le> r) (map snd evs)"
proof (induction evs)
  case Nil
  then show ?case by (simp add: eventfds_created_def)
next
  case (Cons e evs)
  then have "fst e = Eventfd" "map fst evs = replicate (length evs) Eventfd" by simp_all
  with Cons.IH show ?case by (simp add: eventfds_created_def)
qed

lemma sends_not_Eventfd: "\<forall>c\<in>set cs. is_send c \<Longrightarrow> Eventfd \<notin> set cs"
  by (auto simp: is_send_def)


lemma get_unused_id_first:
  assumes "get_unused_id s = Some s1"
  shows "\<exists>k. cur_id s1 = cur_id s + of_nat k \<and>
             (\<forall>j<k. cur_id s + of_nat j \<in> peer_id ` set (peer_list s))"
proof (rule get_unused_id.raw_induct[OF _ assms])
  fix f s s1
  assume IH: "\<And>x y. f x = Some y \<Longrightarrow> \<exists>k. cur_id y = cur_id x + of_nat k \<and>
             (\<forall>j<k. cur_id x + of_nat j \<in> peer_id ` set (peer_list x))"
    and eq: "(if ivshmem_server_search_peer s (cur_id s) \<noteq> None
               then f (s\<lparr>cur_id := cur_id s + 1\<rparr>) else Some s) = Some s1"
  show "\<exists>k. cur_id s1 = cur_id s + of_nat k \<and>
             (\<forall>j<k. cur_id s + of_nat j \<in> peer_id ` set (peer_list s))"
  proof (cases "cur_id s \<in> peer_id ` set (peer_list s)")
    case False
    with eq have "s1 = s" by (simp add: search_peer_None)
    then show ?thesis by (intro exI[of _ 0]) simp
  next
    case True
    with eq have "f (s\<lparr>cur_id := cur_id s + 1\<rparr>) = Some s1"
      by (simp add: search_peer_None)
    from IH[OF this] obtain k where
      a: "cur_id s1 = cur_id s + 1 + of_nat k"
      and b: "\<forall>j<k. cur_id s + 1 + of_nat j \<in> peer_id ` set (peer_list s)"
      by auto
    have "cur_id s1 = cur_id s + of_nat (Suc k)" using a by simp
    moreover have "cur_id s + of_nat j \<in> peer_id ` set (peer_list s)" if "j < Suc k" for j
    proof (cases j)
      case 0
      with True show ?thesis by simp
    next
      case (Suc j')
      with that b have "cur_id s + 1 + of_nat j' \<in> peer_id ` set (peer_list s)" by simp
      with Suc show ?thesis by (simp add: ac_simps)
    qed
    ultimately show ?thesis by blast
  qed
qed

lemma word64_of_nat_minus_one:
  assumes "(of_nat k :: 64 word) = - 1"
  shows "2 ^ 64 - 1 \<le> k"
proof -
  have "unat (of_nat k :: 64 word) = k mod 2 ^ 64" by (simp add: unat_of_nat)
  moreover have "unat (- 1 :: 64 word) = 2 ^ 64 - 1"
    by (simp add: unsigned_minus_1_eq_mask mask_eq_exp_minus_1)
  ultimately have "k mod 2 ^ 64 = 2 ^ 64 - 1" using assms by simp
  moreover have "k mod 2 ^ 64 \<le> k" by simp
  ultimately show ?thesis by linarith
qed

lemma run_of_ids_length:
  fixes c :: "64 word"
  assumes "\<forall>j<n. c + of_nat j \<in> peer_id ` set ps" and "n \<le> 2 ^ 64"
  shows "n \<le> length ps"
proof -
  have inj: "inj_on (\<lambda>j. c + (of_nat j :: 64 word)) {..<n}"
  proof (rule inj_onI)
    fix i j assume i: "i \<in> {..<n}" and j: "j \<in> {..<n}"
      and e: "c + (of_nat i :: 64 word) = c + of_nat j"
    from e have "(of_nat i :: 64 word) = of_nat j" by simp
    then have "unat (of_nat i :: 64 word) = unat (of_nat j :: 64 word)" by simp
    then have "i mod 2 ^ 64 = j mod 2 ^ 64" by (simp add: unat_of_nat)
    moreover from i j assms(2) have "i < 2 ^ 64" "j < 2 ^ 64" by simp_all
    ultimately show "i = j" by simp
  qed
  have "(\<lambda>j. c + of_nat j) ` {..<n} \<subseteq> peer_id ` set ps" using assms(1) by auto
  then have "card ((\<lambda>j. c + (of_nat j :: 64 word)) ` {..<n}) \<le> card (peer_id ` set ps)"
    by (intro card_mono) simp_all
  also have "\<dots> \<le> length ps"
    by (metis card_image_le card_length le_trans List.finite_set)
  finally show ?thesis using inj by (simp add: card_image)
qed

lemma filter_fst_all: "\<forall>c\<in>set (map fst evs). P c \<Longrightarrow> filter (\<lambda>e. P (fst e)) evs = evs"
  by (induction evs) simp_all

lemma filter_fst_none: "\<forall>c\<in>set (map fst evs). \<not> P c \<Longrightarrow> filter (\<lambda>e. P (fst e)) evs = []"
  by (induction evs) simp_all




text \<open>
  A candidate size of 0 is never left by the doubling: when the storage refuses it,
  the loop of \<^verbatim>\<open>ivshmem_server_ftruncate\<close> does not return.
\<close>

lemma ftruncate_retry_zero_diverges:
  "ftruncate_retry os_no_ftruncate fd 0 w = None"
proof (rule ccontr)
  assume "ftruncate_retry os_no_ftruncate fd 0 w \<noteq> None"
  then obtain y where y: "ftruncate_retry os_no_ftruncate fd 0 w = Some y" by auto
  have "os = os_no_ftruncate \<and> sz = 0 \<longrightarrow> False"
    if "ftruncate_retry os fd sz w = Some y" for os fd sz w y
    using that
  proof (rule ftruncate_retry.raw_induct[rotated])
    fix f os fd sz w y
    assume IH: "\<And>os fd sz w y. f os fd sz w = Some y \<Longrightarrow> os = os_no_ftruncate \<and> sz = 0 \<longrightarrow> False"
      and eq: "(if sz \<le> IVSHMEM_SERVER_MAX_HUGEPAGE_SIZE
                then case sys os w (Ftruncate fd sz) of
                       (ret, w1) \<Rightarrow> if ret = 0 then Some (ret, w1) else f os fd (sz * 2) w1
                else Some (- 1, w)) = Some y"
    show "os = os_no_ftruncate \<and> sz = 0 \<longrightarrow> False"
    proof
      assume a: "os = os_no_ftruncate \<and> sz = 0"
      with eq have "f os_no_ftruncate fd 0 (snd (sys os_no_ftruncate w (Ftruncate fd 0))) = Some y"
        by (simp add: sys_def os_no_ftruncate_def IVSHMEM_SERVER_MAX_HUGEPAGE_SIZE_def
            split: prod.splits)
      from IH[OF this] show False by simp
    qed
  qed
  from this[OF y] show False by simp
qed

lemma delivered_all:
  "\<forall>e\<in>set evs. is_send (fst e) \<longrightarrow> snd e = sizeof_long \<Longrightarrow>
   delivered_to sock evs = messages_to sock (map fst evs)"
  by (induction evs) (auto simp: is_send_def split: syscall.splits)

subsection \<open>Sizing within the range of \<^verbatim>\<open>unsigned\<close>\<close>

text \<open>
  For a request from 1 to \<open>2^31\<close>, \<^verbatim>\<open>ivshmem_server_ftruncate\<close> rounds up to the
  smallest power of two that is not below the request and attempts it and its
  doublings up to \<open>2^30\<close>. Outside that range, the increment after the bit-smearing
  wraps to 0.
\<close>

lemma smear_step:
  fixes a x :: "32 word"
  assumes "\<And>i. bit a i \<longleftrightarrow> (\<exists>j. i \<le> j \<and> j < i + k \<and> bit x j)"
  shows "bit (a OR drop_bit k a) i \<longleftrightarrow> (\<exists>j. i \<le> j \<and> j < i + 2 * k \<and> bit x j)"
proof -
  have "bit (a OR drop_bit k a) i \<longleftrightarrow> bit a i \<or> bit a (k + i)"
    by (simp add: bit_or_iff bit_drop_bit_eq)
  also have "\<dots> \<longleftrightarrow> (\<exists>j. i \<le> j \<and> j < i + k \<and> bit x j) \<or>
      (\<exists>j. k + i \<le> j \<and> j < k + i + k \<and> bit x j)"
    by (simp only: assms)
  also have "\<dots> \<longleftrightarrow> (\<exists>j. i \<le> j \<and> j < i + 2 * k \<and> bit x j)"
  proof
    assume "(\<exists>j. i \<le> j \<and> j < i + k \<and> bit x j) \<or> (\<exists>j. k + i \<le> j \<and> j < k + i + k \<and> bit x j)"
    then show "\<exists>j. i \<le> j \<and> j < i + 2 * k \<and> bit x j"
    proof
      assume "\<exists>j. i \<le> j \<and> j < i + k \<and> bit x j"
      then obtain j where "i \<le> j" "j < i + k" "bit x j" by blast
      then have "i \<le> j \<and> j < i + 2 * k \<and> bit x j" by simp
      then show ?thesis ..
    next
      assume "\<exists>j. k + i \<le> j \<and> j < k + i + k \<and> bit x j"
      then obtain j where "k + i \<le> j" "j < k + i + k" "bit x j" by blast
      then have "i \<le> j \<and> j < i + 2 * k \<and> bit x j" by simp
      then show ?thesis ..
    qed
  next
    assume "\<exists>j. i \<le> j \<and> j < i + 2 * k \<and> bit x j"
    then obtain j where j: "i \<le> j" "j < i + 2 * k" "bit x j" by blast
    show "(\<exists>j. i \<le> j \<and> j < i + k \<and> bit x j) \<or> (\<exists>j. k + i \<le> j \<and> j < k + i + k \<and> bit x j)"
    proof (cases "j < i + k")
      case True
      with j show ?thesis by blast
    next
      case False
      with j have "k + i \<le> j \<and> j < k + i + k \<and> bit x j" by simp
      then show ?thesis by blast
    qed
  qed
  finally show ?thesis .
qed

lemma align_shmsize_smear: "align_shmsize n = smear (n - 1) + 1"
  by (simp add: align_shmsize_def smear_def Let_def)

lemma bit_smear:
  "bit (smear x) i \<longleftrightarrow> (\<exists>j. i \<le> j \<and> bit x j)"
proof -
  define s1 where "s1 = x OR drop_bit 1 x"
  define s2 where "s2 = s1 OR drop_bit 2 s1"
  define s3 where "s3 = s2 OR drop_bit 4 s2"
  define s4 where "s4 = s3 OR drop_bit 8 s3"
  define s5 where "s5 = s4 OR drop_bit 16 s4"
  have b0: "bit x i \<longleftrightarrow> (\<exists>j. i \<le> j \<and> j < i + 1 \<and> bit x j)" for i
    by (metis Suc_eq_plus1 le_refl less_Suc_eq_le le_antisym)
  have b1: "bit s1 i \<longleftrightarrow> (\<exists>j. i \<le> j \<and> j < i + 2 \<and> bit x j)" for i
    unfolding s1_def using smear_step[of x 1 x i, OF b0] by simp
  have b2: "bit s2 i \<longleftrightarrow> (\<exists>j. i \<le> j \<and> j < i + 4 \<and> bit x j)" for i
    unfolding s2_def using smear_step[of s1 2 x i, OF b1] by simp
  have b3: "bit s3 i \<longleftrightarrow> (\<exists>j. i \<le> j \<and> j < i + 8 \<and> bit x j)" for i
    unfolding s3_def using smear_step[of s2 4 x i, OF b2] by simp
  have b4: "bit s4 i \<longleftrightarrow> (\<exists>j. i \<le> j \<and> j < i + 16 \<and> bit x j)" for i
    unfolding s4_def using smear_step[of s3 8 x i, OF b3] by simp
  have b5: "bit s5 i \<longleftrightarrow> (\<exists>j. i \<le> j \<and> j < i + 32 \<and> bit x j)" for i
    unfolding s5_def using smear_step[of s4 16 x i, OF b4] by simp
  have sm: "smear x = s5"
    by (simp add: smear_def Let_def s1_def s2_def s3_def s4_def s5_def)
  have "bit (smear x) i \<longleftrightarrow> (\<exists>j. i \<le> j \<and> j < i + 32 \<and> bit x j)"
    unfolding sm by (rule b5)
  also have "\<dots> \<longleftrightarrow> (\<exists>j. i \<le> j \<and> bit x j)"
  proof
    assume "\<exists>j. i \<le> j \<and> bit x j"
    then obtain j where j: "i \<le> j" "bit x j" by blast
    from j(2) have "j < 32" by (auto dest: bit_imp_le_length)
    with j have "i \<le> j \<and> j < i + 32 \<and> bit x j" by simp
    then show "\<exists>j. i \<le> j \<and> j < i + 32 \<and> bit x j" ..
  qed blast
  finally show ?thesis .
qed


lemma bit_nat_below:
  fixes y :: nat
  assumes "y < 2 ^ m" and "m \<le> j"
  shows "\<not> bit y j"
proof -
  from assms have "y < 2 ^ j"
    by (meson le_trans linorder_not_le one_le_numeral power_increasing)
  then show ?thesis by (simp add: bit_iff_odd)
qed

lemma bit_nat_top:
  fixes y :: nat
  assumes "y < 2 ^ Suc k" and "2 ^ k \<le> y"
  shows "bit y k"
proof -
  from assms have "y div 2 ^ k = 1"
    by (simp add: div_nat_eqI)
  then show ?thesis by (simp add: bit_iff_odd)
qed

lemma smear_mask:
  fixes x :: "32 word"
  assumes lt: "unat x < 2 ^ m" and top: "m = 0 \<or> 2 ^ (m - 1) \<le> unat x"
  shows "smear x = mask m"
proof (rule bit_eqI)
  fix i
  have up: "j < m" if "bit x j" for j
  proof (rule ccontr)
    assume "\<not> j < m"
    then have "\<not> bit (unat x) j" using bit_nat_below[OF lt, of j] by simp
    with that show False by (simp add: bit_unsigned_iff)
  qed
  have "(\<exists>j. i \<le> j \<and> bit x j) \<longleftrightarrow> i < m"
  proof
    assume "\<exists>j. i \<le> j \<and> bit x j"
    then obtain j where "i \<le> j" "bit x j" by blast
    with up[of j] show "i < m" by simp
  next
    assume im: "i < m"
    then obtain k where k: "m = Suc k" by (cases m) simp_all
    with top lt have "bit (unat x) k" by (intro bit_nat_top) simp_all
    then have "bit x k" by (simp add: bit_unsigned_iff)
    with im k have "i \<le> k \<and> bit x k" by simp
    then show "\<exists>j. i \<le> j \<and> bit x j" ..
  qed
  moreover assume "possible_bit TYPE(32 word) i"
  ultimately show "bit (smear x) i \<longleftrightarrow> bit (mask m :: 32 word) i"
    by (simp add: bit_smear bit_mask_iff)
qed

lemma nat_bit_length:
  fixes y :: nat
  shows "\<exists>m. y < 2 ^ m \<and> (m = 0 \<or> 2 ^ (m - 1) \<le> y)"
proof -
  have ex: "\<exists>m. y < 2 ^ m" using less_exp by blast
  define m where "m = (LEAST m. y < 2 ^ m)"
  from ex have a: "y < 2 ^ m" unfolding m_def by (rule LeastI_ex)
  have "2 ^ (m - 1) \<le> y" if "m \<noteq> 0"
  proof (rule ccontr)
    assume "\<not> 2 ^ (m - 1) \<le> y"
    then have "y < 2 ^ (m - 1)" by simp
    then have "m \<le> m - 1" unfolding m_def by (rule Least_le)
    with that show False by simp
  qed
  with a have "y < 2 ^ m \<and> (m = 0 \<or> 2 ^ (m - 1) \<le> y)" by auto
  then show ?thesis ..
qed

lemma align_shmsize_pow2:
  assumes "1 \<le> unat n" and "unat n \<le> 2 ^ 31"
  shows "\<exists>m\<le>31. align_shmsize n = 2 ^ m \<and> unat n \<le> 2 ^ m \<and> (\<forall>j. unat n \<le> 2 ^ j \<longrightarrow> m \<le> j)"
proof -
  let ?x = "n - 1"
  from assms(1) have ux: "unat ?x = unat n - 1"
    by (simp add: unat_sub word_le_nat_alt)
  from nat_bit_length[of "unat ?x"] obtain m where
    lt: "unat ?x < 2 ^ m" and top: "m = 0 \<or> 2 ^ (m - 1) \<le> unat ?x" by blast
  have m31: "m \<le> 31"
  proof (rule ccontr)
    assume "\<not> m \<le> 31"
    then have "31 \<le> m - 1" "m \<noteq> 0" by simp_all
    then have "(2::nat) ^ 31 \<le> 2 ^ (m - 1)" by (intro power_increasing) simp_all
    with top \<open>m \<noteq> 0\<close> have "2 ^ 31 \<le> unat ?x" by simp
    with ux assms show False by simp
  qed
  have "align_shmsize n = mask m + 1"
    using smear_mask[OF lt top] by (simp add: align_shmsize_smear)
  then have al: "align_shmsize n = 2 ^ m" by (simp add: mask_eq_exp_minus_1)
  from lt ux assms(1) have ge: "unat n \<le> 2 ^ m" by simp
  have least: "m \<le> j" if "unat n \<le> 2 ^ j" for j
  proof (cases "m = 0")
    case False
    with top have "(2::nat) ^ (m - 1) \<le> unat n - 1" using ux by simp
    also have "\<dots> < unat n" using assms(1) by simp
    also note that
    finally have "(2::nat) ^ (m - 1) < 2 ^ j" .
    then have "m - 1 < j" by (rule power_less_imp_less_exp[rotated]) simp
    with False show ?thesis by simp
  qed simp
  from m31 al ge least show ?thesis by blast
qed

lemma unat_pow2_32:
  assumes "k < 32"
  shows "unat (2 ^ k :: 32 word) = 2 ^ k"
proof -
  from assms have lt: "(2::nat) ^ k < 2 ^ 32" by (intro power_strict_increasing) simp_all
  have "(2 ^ k :: 32 word) = of_nat (2 ^ k)" by simp
  then have "unat (2 ^ k :: 32 word) = unat (of_nat (2 ^ k) :: 32 word)" by (rule arg_cong)
  also have "\<dots> = 2 ^ k mod 2 ^ 32" by (simp only: unat_of_nat) simp
  also have "\<dots> = 2 ^ k" using lt by simp
  finally show ?thesis .
qed

lemma pow2_le_max_hugepage:
  assumes "k \<le> 31"
  shows "(2 ^ k :: 32 word) \<le> IVSHMEM_SERVER_MAX_HUGEPAGE_SIZE \<longleftrightarrow> k \<le> 30"
proof -
  have m: "IVSHMEM_SERVER_MAX_HUGEPAGE_SIZE = 2 ^ 30"
    by (simp add: IVSHMEM_SERVER_MAX_HUGEPAGE_SIZE_def)
  from assms have "unat (2 ^ k :: 32 word) = 2 ^ k" by (intro unat_pow2_32) simp
  moreover have "unat (2 ^ 30 :: 32 word) = 2 ^ 30" by (intro unat_pow2_32) simp
  ultimately have "(2 ^ k :: 32 word) \<le> 2 ^ 30 \<longleftrightarrow> (2::nat) ^ k \<le> 2 ^ 30"
    by (simp only: word_le_nat_alt)
  also have "\<dots> \<longleftrightarrow> k \<le> 30" by (rule power_increasing_iff) simp
  finally show ?thesis unfolding m .
qed

lemma ftruncate_retry_doublings:
  "k \<le> 31 \<Longrightarrow> ftruncate_retry os fd (2 ^ k) w = Some (attempt_doublings os fd k w)"
proof (induction os fd k w rule: attempt_doublings.induct)
  case (1 os fd k w)
  show ?case
  proof (cases "k \<le> 30")
    case True
    obtain ret w1 where s: "sys os w (Ftruncate fd (2 ^ k)) = (ret, w1)" by (cases "sys os w (Ftruncate fd (2 ^ k))")
    from True have le: "(2 ^ k :: 32 word) \<le> IVSHMEM_SERVER_MAX_HUGEPAGE_SIZE"
      using pow2_le_max_hugepage[of k] by simp
    show ?thesis
    proof (cases "ret = 0")
      case True
      with le s show ?thesis
        by (subst ftruncate_retry.simps, subst attempt_doublings.simps) (simp add: \<open>k \<le> 30\<close>)
    next
      case False
      from \<open>k \<le> 30\<close> have "k + 1 \<le> 31" by simp
      from "1.IH"[OF \<open>k \<le> 30\<close> s[symmetric] False this]
      have "ftruncate_retry os fd (2 ^ k * 2) w1 = Some (attempt_doublings os fd (k + 1) w1)"
        by (simp add: mult.commute)
      with le s False show ?thesis
        by (subst ftruncate_retry.simps, subst attempt_doublings.simps) (simp add: \<open>k \<le> 30\<close>)
    qed
  next
    case False
    with "1.prems" have "\<not> (2 ^ k :: 32 word) \<le> IVSHMEM_SERVER_MAX_HUGEPAGE_SIZE"
      using pow2_le_max_hugepage[of k] by simp
    with False show ?thesis
      by (subst ftruncate_retry.simps, subst attempt_doublings.simps) simp
  qed
qed

lemma ftruncate_in_range:
  assumes "1 \<le> unat n" and "unat n \<le> 2 ^ 31"
  shows "\<exists>m\<le>31. unat n \<le> 2 ^ m \<and> (\<forall>j. unat n \<le> 2 ^ j \<longrightarrow> m \<le> j) \<and>
           ivshmem_server_ftruncate os fd n w = Some (attempt_doublings os fd m w)"
proof -
  from align_shmsize_pow2[OF assms] obtain m where
    m: "m \<le> 31" "align_shmsize n = 2 ^ m" "unat n \<le> 2 ^ m" "\<forall>j. unat n \<le> 2 ^ j \<longrightarrow> m \<le> j"
    by blast
  from ftruncate_retry_doublings[OF m(1), of os fd w] m(2)
  have "ivshmem_server_ftruncate os fd n w = Some (attempt_doublings os fd m w)"
    by (simp add: ivshmem_server_ftruncate_def)
  with m show ?thesis by blast
qed

subsection \<open>An id that the counter has passed\<close>

lemma skips_mono: "skips c (Suc n) t \<Longrightarrow> skips c n t"
  by (simp add: skips_def)

lemma unat_of_nat64: "j < 2 ^ 64 \<Longrightarrow> unat (of_nat j :: 64 word) = j"
  by (simp add: unat_of_nat)

lemma unat_lt64: "unat (x :: 64 word) < 2 ^ 64"
  using unsigned_less[of x] by simp

lemma length_filter_remove_nth:
  "length (filter P (remove_nth i xs)) \<le> length (filter P xs)"
proof (cases "i < length xs")
  case True
  then have "xs = take i xs @ xs ! i # drop (Suc i) xs"
    by (simp add: id_take_nth_drop [symmetric])
  then have "filter P xs = filter P (take i xs) @ filter P [xs ! i] @ filter P (drop (Suc i) xs)"
    by (metis append_Cons append_Nil filter_append)
  then show ?thesis by (simp add: remove_nth_def)
next
  case False
  then show ?thesis by (simp add: remove_nth_def)
qed

lemma skips_remove:
  assumes "skips c n t"
  shows "skips c n (t\<lparr>peer_list := remove_nth j (peer_list t)\<rparr>)"
proof -
  have "length (ahead c (t\<lparr>peer_list := remove_nth j (peer_list t)\<rparr>)) \<le> length (ahead c t)"
    by (simp add: ahead_def gap_def length_filter_remove_nth)
  moreover have "c \<notin> peer_id ` set (remove_nth j (peer_list t))"
    using assms set_remove_nth[of j "peer_list t"] by (auto simp: skips_def)
  ultimately show ?thesis using assms by (simp add: skips_def gap_def)
qed

text \<open>The probe stops before the id \<open>c\<close>, and what it leaves still skips \<open>c\<close>.\<close>

lemma skips_probe:
  assumes inv: "skips c (Suc n) s"
    and g: "get_unused_id s = Some (s\<lparr>cur_id := c2\<rparr>)"
  shows "c2 \<noteq> c \<and> skips c n (s\<lparr>cur_id := c2 + 1\<rparr>) \<and>
         skips c n (s\<lparr>cur_id := c2 + 1, peer_list := peer_list s @ [p\<lparr>peer_id := c2\<rparr>]\<rparr>)"
proof -
  let ?G = "gap c s"
  let ?off = "\<lambda>q. unat (peer_id q - cur_id s)"
  from inv have cfree: "c \<notin> peer_id ` set (peer_list s)"
    and bound: "length (ahead c s) + Suc n < ?G" by (simp_all add: skips_def)
  have G64: "?G < 2 ^ 64" unfolding gap_def by (rule unat_lt64)
  from get_unused_id_first[OF g] obtain k where
    k: "c2 = cur_id s + of_nat k"
    and occ: "\<forall>j<k. cur_id s + of_nat j \<in> peer_id ` set (peer_list s)"
    by auto
  have below: "m \<le> length (filter (\<lambda>q. ?off q < m) (peer_list s))"
    if m: "m \<le> k" "m < 2 ^ 64" for m
  proof (rule run_of_ids_length[of m "cur_id s"])
    show "m \<le> 2 ^ 64" using m by simp
    show "\<forall>j<m. cur_id s + of_nat j \<in> peer_id ` set (filter (\<lambda>q. ?off q < m) (peer_list s))"
    proof (intro allI impI)
      fix j assume j: "j < m"
      with m occ obtain q where q: "q \<in> set (peer_list s)" "peer_id q = cur_id s + of_nat j"
        by (metis (no_types, lifting) imageE less_le_trans)
      from j m have "j < 2 ^ 64" by simp
      then have "?off q = j" using q(2) by (simp add: unat_of_nat64)
      with j q have "q \<in> set (filter (\<lambda>q. ?off q < m) (peer_list s))" by simp
      with q(2) show "cur_id s + of_nat j \<in> peer_id ` set (filter (\<lambda>q. ?off q < m) (peer_list s))"
        by (metis imageI)
    qed
  qed
  have kG: "k < ?G"
  proof (rule ccontr)
    assume "\<not> k < ?G"
    then have "?G \<le> k" by simp
    from below[OF this G64] have "?G \<le> length (ahead c s)" by (simp add: ahead_def)
    with bound show False by simp
  qed
  then have k64: "k < 2 ^ 64" "Suc k < 2 ^ 64" using G64 by simp_all
  have offc2: "unat (c2 - cur_id s) = k" using k k64 by (simp add: unat_of_nat64)
  have ne: "c2 \<noteq> c"
  proof
    assume "c2 = c"
    with offc2 have "?G = k" by (simp add: gap_def)
    with kG show False by simp
  qed
  let ?s1 = "s\<lparr>cur_id := c2 + 1\<rparr>"
  define m where "m = Suc k"
  have m64: "m < 2 ^ 64" and mG: "m \<le> ?G" using k64 kG by (simp_all add: m_def)
  have um: "unat (of_nat m :: 64 word) = m" using m64 by (rule unat_of_nat64)
  have cur1: "c2 + 1 = cur_id s + of_nat m" using k by (simp add: m_def)
  have shift: "unat (x - (c2 + 1)) =
      (if m \<le> unat (x - cur_id s) then unat (x - cur_id s) - m
       else unat (x - cur_id s) + 2 ^ 64 - m)" for x :: "64 word"
  proof -
    have "x - (c2 + 1) = (x - cur_id s) - of_nat m" by (simp only: cur1 diff_diff_eq)
    then have "unat (x - (c2 + 1)) = unat ((x - cur_id s) - of_nat m)" by (rule arg_cong)
    also have "\<dots> = (if unat (of_nat m :: 64 word) \<le> unat (x - cur_id s)
        then unat (x - cur_id s) - unat (of_nat m :: 64 word)
        else unat (x - cur_id s) + 2 ^ LENGTH(64) - unat (of_nat m :: 64 word))"
      by (rule unat_sub_if')
    finally show ?thesis by (simp add: um)
  qed
  have gap1: "gap c ?s1 = ?G - m"
    using shift[of c] mG by (simp add: gap_def)
  have imp: "unat (peer_id q - (c2 + 1)) < ?G - m \<Longrightarrow> ?off q < ?G \<and> \<not> ?off q < k" for q
    using shift[of "peer_id q"] G64 mG by (auto simp: m_def split: if_splits)
  have "length (filter (\<lambda>q. unat (peer_id q - (c2 + 1)) < ?G - m) (peer_list s))
      \<le> length (filter (\<lambda>q. ?off q < ?G \<and> \<not> ?off q < k) (peer_list s))"
  proof -
    have "filter (\<lambda>q. unat (peer_id q - (c2 + 1)) < ?G - m) (peer_list s) =
        filter (\<lambda>q. (?off q < ?G \<and> \<not> ?off q < k) \<and> unat (peer_id q - (c2 + 1)) < ?G - m)
          (peer_list s)"
      by (rule filter_cong[OF refl]) (use imp in blast)
    also have "\<dots> = filter (\<lambda>q. unat (peer_id q - (c2 + 1)) < ?G - m)
          (filter (\<lambda>q. ?off q < ?G \<and> \<not> ?off q < k) (peer_list s))"
      by (simp only: filter_filter)
    finally show ?thesis by (simp only: length_filter_le)
  qed
  moreover have "length (filter (\<lambda>q. ?off q < ?G) (peer_list s)) =
      length (filter (\<lambda>q. ?off q < k) (peer_list s)) +
      length (filter (\<lambda>q. ?off q < ?G \<and> \<not> ?off q < k) (peer_list s))"
  proof -
    have "filter (\<lambda>q. ?off q < k) (peer_list s) =
        filter (\<lambda>q. ?off q < ?G \<and> ?off q < k) (peer_list s)"
      by (rule filter_cong[OF refl]) (use kG in auto)
    then have e1: "filter (\<lambda>q. ?off q < k) (peer_list s) =
        filter (\<lambda>q. ?off q < k) (filter (\<lambda>q. ?off q < ?G) (peer_list s))"
      by (simp only: filter_filter)
    have e2: "filter (\<lambda>q. ?off q < ?G \<and> \<not> ?off q < k) (peer_list s) =
        filter (\<lambda>q. \<not> ?off q < k) (filter (\<lambda>q. ?off q < ?G) (peer_list s))"
      by (simp only: filter_filter)
    show ?thesis
      unfolding e1 e2
      using sum_length_filter_compl[of "\<lambda>q. ?off q < k" "filter (\<lambda>q. ?off q < ?G) (peer_list s)"]
      by (rule sym)
  qed
  moreover have "k \<le> length (filter (\<lambda>q. ?off q < k) (peer_list s))"
    using below[of k] k64 by simp
  ultimately have len1: "length (ahead c ?s1) + k \<le> length (ahead c s)"
    unfolding ahead_def gap1 by (simp add: gap_def)
  have a: "skips c n ?s1"
    using cfree len1 bound gap1 by (simp add: skips_def m_def)
  let ?s2 = "s\<lparr>cur_id := c2 + 1, peer_list := peer_list s @ [p\<lparr>peer_id := c2\<rparr>]\<rparr>"
  have gap2: "gap c ?s2 = ?G - m" using gap1 by (simp add: gap_def)
  have "unat (c2 - (c2 + 1)) = 2 ^ 64 - 1"
    using shift[of c2] offc2 k64 by (simp add: m_def)
  then have "\<not> unat (c2 - (c2 + 1)) < ?G - m" using G64 by simp
  then have "ahead c ?s2 = ahead c ?s1"
    unfolding ahead_def gap1 gap2 by simp
  then have b: "skips c n ?s2"
    using a ne cfree gap1 gap2 by (simp add: skips_def)
  from ne a b show ?thesis by simp
qed


lemma skips_handshake:
  assumes "skips c (Suc n) s"
    and "ivshmem_server_handle_new_conn h os s w = Returns (r, s', w')"
  shows "skips c n s'"
proof (cases "fst (os (trace w) (Accept4 (sock_fd s))) < 0")
  case True
  from handle_new_conn_accept_failed[where os = os and w = w and s = s and h = h, OF True] assms(2)
  have "s' = s" by simp
  with assms(1) show ?thesis by (simp add: skips_mono)
next
  case False
  then have acc: "0 \<le> fst (os (trace w) (Accept4 (sock_fd s)))" by simp
  from acc assms(2) show ?thesis
  proof (cases rule: handle_new_conn_returns)
    case (success c2 p evE evI evR)
    have "p = p\<lparr>peer_id := c2\<rparr>" by (simp add: success(3) new_peer_def)
    with success(7) have "s' = s\<lparr>cur_id := c2 + 1, peer_list := peer_list s @ [p\<lparr>peer_id := c2\<rparr>]\<rparr>"
      by simp
    with skips_probe[OF assms(1) success(1), of p] show ?thesis by simp
  next
    case (failure c2 p evE evI evR)
    with skips_probe[OF assms(1) failure(1), of p] show ?thesis by simp
  qed
qed

lemma sweep_peers_invariant:
  assumes "sweep_peers os fds maxfd s w i = Returns (s', w')"
    and "Q s"
    and step: "\<And>t j. Q t \<Longrightarrow> Q (t\<lparr>peer_list := remove_nth j (peer_list t)\<rparr>)"
  shows "Q s'"
  using assms(1,2)
proof (induction os fds maxfd s w i rule: sweep_peers.induct)
  case (1 os fds maxfd s w i)
  show ?case
  proof (cases "i < length (peer_list s)")
    case False
    with 1(3) have "s' = s" by (subst (asm) sweep_peers.simps) simp
    with 1(4) show ?thesis by simp
  next
    case True
    let ?p = "peer_list s ! i"
    let ?w0 = "debug os s ''peer->sock_fd=%d'' w"
    show ?thesis
    proof (cases "peer_sock_fd ?p < maxfd \<and> peer_sock_fd ?p \<in> fds")
      case ready: True
      from 1(3) True ready obtain s1 w1 where
        f: "ivshmem_server_free_peer os s i ?w0 = Returns (s1, w1)"
        and r: "sweep_peers os fds maxfd s1 w1 i = Returns (s', w')"
        by (subst (asm) sweep_peers.simps)
           (auto simp: Let_def split: outcome.splits)
      from free_peer_step[OF f] have s1: "s1 = s\<lparr>peer_list := remove_nth i (peer_list s)\<rparr>"
        by simp
      have "Q s1" unfolding s1 using 1(4) by (rule step)
      from 1(1)[OF True refl refl ready f refl r this] show ?thesis .
    next
      case notready: False
      from 1(3) True notready
      have r: "sweep_peers os fds maxfd s ?w0 (i + 1) = Returns (s', w')"
        by (subst (asm) sweep_peers.simps) (auto simp: Let_def)
      from 1(2)[OF True refl refl notready r 1(4)] show ?thesis .
    qed
  qed
qed

lemma skips_sweep:
  assumes "sweep_peers os fds maxfd s w i = Returns (s', w')" and "skips c n s"
  shows "skips c n s'"
  using assms by (rule sweep_peers_invariant) (rule skips_remove)

lemma skips_free:
  assumes "ivshmem_server_free_peer os s i w = Returns (s', w')" and "skips c n s"
  shows "skips c n s'"
  using free_peer_step[OF assms(1)] skips_remove[OF assms(2), of i] by simp

lemma skips_fds:
  assumes "ivshmem_server_handle_fds h os s fds maxfd w = Returns (ret, s', w')"
    and "skips c (Suc n) s"
  shows "skips c n s'"
  using assms(1)
proof (cases rule: handle_fds_cases)
  case (failed w1)
  from skips_handshake[OF assms(2) failed(3)] show ?thesis .
next
  case (accepted r s1 w1)
  from skips_handshake[OF assms(2) accepted(3)] have "skips c n s1" .
  with accepted(5) show ?thesis by (rule skips_sweep)
next
  case idle
  from idle(2) skips_mono[OF assms(2)] show ?thesis by (rule skips_sweep)
qed

lemma skips_run:
  "run h os ops s w = Returns (t, v) \<Longrightarrow> skips c (length ops) s \<Longrightarrow> skips c 0 t"
proof (induction ops arbitrary: s w)
  case Nil
  then show ?case by simp
next
  case (Cons a ops)
  from Cons.prems(2) have inv: "skips c (Suc (length ops)) s" by simp
  show ?case
  proof (cases a)
    case Connect
    with Cons.prems obtain r s1 w1 where
      a: "ivshmem_server_handle_new_conn h os s w = Returns (r, s1, w1)"
      and b: "run h os ops s1 w1 = Returns (t, v)"
      by (auto split: outcome.splits)
    from Cons.IH[OF b skips_handshake[OF inv a]] show ?thesis .
  next
    case (Disconnect i)
    with Cons.prems obtain s1 w1 where
      a: "ivshmem_server_free_peer os s i w = Returns (s1, w1)"
      and b: "run h os ops s1 w1 = Returns (t, v)"
      by (auto split: outcome.splits)
    from Cons.IH[OF b skips_free[OF a skips_mono[OF inv]]] show ?thesis .
  next
    case (Cycle fds maxfd)
    with Cons.prems obtain r s1 w1 where
      a: "ivshmem_server_handle_fds h os s fds maxfd w = Returns (r, s1, w1)"
      and b: "run h os ops s1 w1 = Returns (t, v)"
      by (auto split: outcome.splits)
    from Cons.IH[OF b skips_fds[OF a inv]] show ?thesis .
  qed
qed

lemma skips_start:
  assumes "c \<notin> peer_id ` set (peer_list s)" and "length (peer_list s) + n < 2 ^ 64 - 1"
  shows "skips c n (s\<lparr>cur_id := c + 1\<rparr>)"
proof -
  have "unat (c - (c + 1)) = unat (- 1 :: 64 word)" by simp
  also have "\<dots> = 2 ^ 64 - 1" by (simp add: unsigned_minus_1_eq_mask mask_eq_exp_minus_1)
  finally have g: "gap c (s\<lparr>cur_id := c + 1\<rparr>) = 2 ^ 64 - 1" by (simp add: gap_def)
  have "length (ahead c (s\<lparr>cur_id := c + 1\<rparr>)) \<le> length (peer_list s)"
    by (simp add: ahead_def)
  with assms g show ?thesis by (simp add: skips_def)
qed

subsection \<open>The examples, evaluated\<close>

lemma ex_fresh:
  "freshly_started hdr0 os_ok ''/tmp/sock'' ''shm'' 4096 2 False empty_world
     started_server started_world"
  by code_simp

lemma ex_A: "ivshmem_server_handle_new_conn hdr0 os_ok started_server started_world =
    Returns (0, server_A, world_A)"
  by code_simp

lemma ex_AB: "ivshmem_server_handle_new_conn hdr0 os_ok server_A world_A =
    Returns (0, server_AB, world_AB)"
  by code_simp

lemma ex_A': "ivshmem_server_free_peer os_ok server_AB 1 world_AB = Returns (server_A', world_A')"
  by code_simp

lemma ex_AC: "ivshmem_server_handle_new_conn hdr0 os_ok server_A' world_A' =
    Returns (0, server_AC, world_AC)"
  by code_simp

lemma ex_run: "run hdr0 os_ok [Connect, Connect, Disconnect 1] started_server started_world =
    Returns (server_A', world_A')"
  by code_simp

lemma ex_run_AB: "run hdr0 os_ok [Connect, Connect] started_server started_world =
    Returns (server_AB, world_AB)"
  by code_simp

lemma ex_run_AC:
  "run hdr0 os_ok [Connect, Connect, Disconnect 1, Connect] started_server started_world =
    Returns (server_AC, world_AC)"
  by code_simp

lemma ex_aborted:
  "ivshmem_server_handle_new_conn hdr0 (os_eventfd_limit 17) server_A world_A =
     Returns (- 1, server_A_aborted, world_A_aborted)"
  by code_simp

lemma ex_aborted_accept:
  "fst (os_eventfd_limit 17 (trace world_A) (Accept4 (sock_fd server_A))) = 17"
  by code_simp

lemma ex_AD:
  "ivshmem_server_handle_new_conn hdr0 os_ok server_A_aborted world_A_aborted =
     Returns (0, server_AD, world_AD)"
  by code_simp


lemma ex_conn_deaf:
  "ivshmem_server_handle_new_conn hdr0 (os_deaf 8) server_A world_A =
     Returns (0, server_AB, world_AB_deaf)"
  by code_simp



lemma ex_out_of_bounds:
  "ivshmem_server_handle_new_conn hdr_small os_ok started_server started_world = OutOfBounds"
  by code_simp

lemma ex_free_deaf:
  "ivshmem_server_free_peer (os_deaf 8) server_AB 1 world_AB = Returns (server_A', world_A'_deaf)"
  by code_simp




lemma ex_run_after_abort:
  "ids_after (run hdr0 os_ok [Connect, Disconnect 1, Connect] server_A_aborted world_A_aborted) =
     Some [0, 3]"
  by code_simp

section \<open>Properties of the registry\<close>

text \<open>
  C1. After every sequence of connections, disconnections and dispatch cycles that
  starts from a freshly started server, the ids of the peers of the registry are
  pairwise distinct; and a connection that succeeds in that state appends a peer
  whose id is held by no peer of the registry (an id in use is never assigned), so
  the ids are distinct afterwards too.
\<close>

theorem registry_ids_unique:
  assumes "freshly_started h os sock_path shmpath shmsize nvectors verb wi s0 wa"
    and "run h os ops s0 wa = Returns (s, w)"
  shows "distinct (map peer_id (peer_list s)) \<and>
         (\<forall>s' w'. ivshmem_server_handle_new_conn h os s w = Returns (0, s', w') \<longrightarrow>
            (\<exists>p. peer_list s' = peer_list s @ [p] \<and> peer_id p \<notin> peer_id ` set (peer_list s)) \<and>
            distinct (map peer_id (peer_list s')))"
proof -
  from freshly_started_state[OF assms(1)] have "ids_distinct s0"
    by (simp add: ids_distinct_def)
  with run_preserved[OF assms(2)] have d: "ids_distinct s" by (simp add: preserved_def)
  have "\<exists>p. peer_list s' = peer_list s @ [p] \<and> peer_id p \<notin> peer_id ` set (peer_list s)"
    if "ivshmem_server_handle_new_conn h os s w = Returns (0, s', w')" for s' w'
    using handle_new_conn_success[OF that] by (auto simp: new_peer_def)
  moreover have "distinct (map peer_id (peer_list s'))"
    if "ivshmem_server_handle_new_conn h os s w = Returns (0, s', w')" for s' w'
    using handle_new_conn_preserved[OF that] d by (simp add: preserved_def ids_distinct_def)
  ultimately show ?thesis using d by (simp add: ids_distinct_def)
qed

text \<open>C1 on the scenario: after A, B and B's disconnection, C is given an id that A does not hold.\<close>

theorem registry_ids_unique_witness:
  "freshly_started hdr0 os_ok ''/tmp/sock'' ''shm'' 4096 2 False empty_world
     started_server started_world \<and>
   run hdr0 os_ok [Connect, Connect, Disconnect 1] started_server started_world =
     Returns (server_A', world_A') \<and>
   distinct (map peer_id (peer_list server_A')) \<and>
   ivshmem_server_handle_new_conn hdr0 os_ok server_A' world_A' =
     Returns (0, server_AC, world_AC) \<and>
   peer_list server_AC = peer_list server_A' @ [peer_C] \<and>
   peer_id peer_C \<notin> peer_id ` set (peer_list server_A') \<and>
   distinct (map peer_id (peer_list server_AC))"
proof -
  note a = ex_fresh and b = ex_run and c = ex_AC
  have d: "peer_list server_AC = peer_list server_A' @ [peer_C]"
    by (simp add: server_AC_def server_A'_def)
  from registry_ids_unique[OF a b] c d show ?thesis
    using a b by auto
qed

section \<open>Properties of the framing layer\<close>

text \<open>
  C7 (as amended). \<^verbatim>\<open>ivshmem_server_send_one_msg\<close> reports failure (-1) exactly when
  \<^verbatim>\<open>sendmsg\<close> returns a value that is zero or negative, and success (0) otherwise:
  a write that transfers a positive number of bytes smaller than the payload is
  reported as a success.
\<close>

theorem send_one_msg_result:
  "fst (ivshmem_server_send_one_msg os w sock ident fd) =
     (if fst (os (trace w) (Sendmsg sock ident (cmsg_of fd))) \<le> 0 then - 1 else 0)"
  by (simp add: ivshmem_server_send_one_msg_def sys_def Let_def split: prod.splits)

text \<open>
  C7 as stated fails: the write transfers 3 of the 8 bytes and the function
  returns 0.
\<close>

theorem send_one_msg_partial_write_counterexample:
  "fst (os_partial_write (trace empty_world) (Sendmsg 5 1 None)) = 3 \<and> 3 < sizeof_long \<and>
   fst (ivshmem_server_send_one_msg os_partial_write empty_world 5 1 (- 1)) = 0"
  by (simp add: ivshmem_server_send_one_msg_def sys_def os_partial_write_def empty_world_def
      sizeof_long_def cmsg_of_def)

text \<open>
  C9. After every sequence of operations from a freshly started server, the server's
  \<open>n_vectors\<close> is still the configured number, every peer of the registry has that
  vector count, and its array has the capacity \<open>IVSHMEM_SERVER_MAX_VECTORS\<close>, which
  the count does not exceed. And in every state in which each registered peer has
  \<open>n_vectors\<close> as its vector count, within its array, the loop that advertises the
  registered peers to a new one, which reads \<^verbatim>\<open>other_peer->vectors[i]\<close> for \<open>i\<close> below
  the new peer's vector count, reads no slot out of bounds; and the whole handshake
  makes no access out of bounds when \<open>n_vectors\<close> does not exceed the capacity of the
  array that it fills for the new peer.
\<close>

theorem vector_counts_invariant:
  "(freshly_started h os sock_path shmpath shmsize nvectors verb wi s0 wa \<and>
    run h os ops s0 wa = Returns (s, w) \<longrightarrow>
      n_vectors s = nvectors \<and>
      (\<forall>p\<in>set (peer_list s). vectors_count p = nvectors \<and>
         length (vectors p) = IVSHMEM_SERVER_MAX_VECTORS h \<and>
         nvectors \<le> IVSHMEM_SERVER_MAX_VECTORS h)) \<and>
   ((\<forall>p\<in>set (peer_list t). vectors_count p = n_vectors t \<and>
        vectors_count p \<le> length (vectors p)) \<longrightarrow>
      (\<forall>p u. vectors_count p = n_vectors t \<longrightarrow>
         advertise_others_to_new os (peer_list t) p u \<noteq> None) \<and>
      (n_vectors t \<le> IVSHMEM_SERVER_MAX_VECTORS h \<longrightarrow>
         ivshmem_server_handle_new_conn h os t v \<noteq> OutOfBounds))"
proof (intro conjI impI allI)
  assume a: "freshly_started h os sock_path shmpath shmsize nvectors verb wi s0 wa \<and>
    run h os ops s0 wa = Returns (s, w)"
  from freshly_started_state[of h os sock_path shmpath shmsize nvectors verb wi s0 wa] a
  have "vectors_ok h s0" "n_vectors s0 = nvectors" by (simp_all add: vectors_ok_def)
  with run_preserved[of h os ops s0 wa s w] a
  have "vectors_ok h s" "n_vectors s = nvectors" by (simp_all add: preserved_def)
  then show "n_vectors s = nvectors"
    and "\<forall>p\<in>set (peer_list s). vectors_count p = nvectors \<and>
         length (vectors p) = IVSHMEM_SERVER_MAX_VECTORS h \<and>
         nvectors \<le> IVSHMEM_SERVER_MAX_VECTORS h"
    by (simp_all add: vectors_ok_def)
next
  fix p :: peer and u
  assume inv: "\<forall>p\<in>set (peer_list t). vectors_count p = n_vectors t \<and>
        vectors_count p \<le> length (vectors p)"
    and p: "vectors_count p = n_vectors t"
  from inv p have "\<forall>q\<in>set (peer_list t). vectors_count p \<le> length (vectors q)" by auto
  from advertise_others_to_new_ok[OF this, of os u]
  show "advertise_others_to_new os (peer_list t) p u \<noteq> None" by auto
next
  assume inv: "\<forall>p\<in>set (peer_list t). vectors_count p = n_vectors t \<and>
        vectors_count p \<le> length (vectors p)"
    and cap: "n_vectors t \<le> IVSHMEM_SERVER_MAX_VECTORS h"
  from inv have "\<forall>p\<in>set (peer_list t). n_vectors t \<le> length (vectors p)" by auto
  then show "ivshmem_server_handle_new_conn h os t v \<noteq> OutOfBounds"
    using cap by (rule handle_new_conn_in_bounds)
qed

text \<open>
  C9 on the scenario: A and B are registered, each with two vectors in an array of
  four.
\<close>

theorem vector_counts_invariant_witness:
  "freshly_started hdr0 os_ok ''/tmp/sock'' ''shm'' 4096 2 False empty_world
     started_server started_world \<and>
   run hdr0 os_ok [Connect, Connect] started_server started_world =
     Returns (server_AB, world_AB) \<and>
   n_vectors server_AB = 2 \<and> map vectors_count (peer_list server_AB) = [2, 2] \<and>
   map (\<lambda>p. length (vectors p)) (peer_list server_AB) = [4, 4] \<and>
   IVSHMEM_SERVER_MAX_VECTORS hdr0 = 4 \<and>
   advertise_others_to_new os_ok (peer_list server_AB) peer_C world_AB \<noteq> None \<and>
   ivshmem_server_handle_new_conn hdr0 os_ok server_AB world_AB \<noteq> OutOfBounds"
proof -
  have c: "map vectors_count (peer_list server_AB) = [2, 2]"
    "map (\<lambda>p. length (vectors p)) (peer_list server_AB) = [4, 4]" "n_vectors server_AB = 2"
    "IVSHMEM_SERVER_MAX_VECTORS hdr0 = 4" "vectors_count peer_C = n_vectors server_AB"
    by (simp_all add: server_AB_def peer_A_def peer_B_def peer_C_def started_server_def hdr0_def)
  have d: "\<forall>p\<in>set (peer_list server_AB). vectors_count p = n_vectors server_AB \<and>
        vectors_count p \<le> length (vectors p)"
    by (simp add: server_AB_def peer_A_def peer_B_def started_server_def)
  have e: "n_vectors server_AB \<le> IVSHMEM_SERVER_MAX_VECTORS hdr0" using c by simp
  from vector_counts_invariant[of hdr0 os_ok "''/tmp/sock''" "''shm''" 4096 2 False
      empty_world started_server started_world "[Connect, Connect]" server_AB world_AB
      server_AB world_AB] d e c(5)
  have "advertise_others_to_new os_ok (peer_list server_AB) peer_C world_AB \<noteq> None"
    and "ivshmem_server_handle_new_conn hdr0 os_ok server_AB world_AB \<noteq> OutOfBounds"
    by blast+
  then show ?thesis using ex_fresh ex_run_AB c by simp
qed

text \<open>
  The capacity is checked by the model: with arrays of one vector and a server
  configured for two, the handshake stores the second eventfd beyond the array.
\<close>

lemma handshake_out_of_bounds_example:
  "IVSHMEM_SERVER_MAX_VECTORS hdr_small < n_vectors started_server \<and>
   ivshmem_server_handle_new_conn hdr_small os_ok started_server started_world = OutOfBounds"
  using ex_out_of_bounds by (simp add: hdr_small_def hdr0_def started_server_def)

text \<open>
  C4 (as amended). In a freshly started server, two successive connections are given
  the ids 0 and 1; after the peer with id 1 has disconnected, the next connection is
  given the id 2, not the id 1: the counter, which was 2 before the disconnection, is
  2 after it and 3 after the third connection.
\<close>

theorem ids_not_reused_at_once:
  assumes "freshly_started h os sock_path shmpath shmsize nvectors verb wi s0 wa"
    and "ivshmem_server_handle_new_conn h os s0 wa = Returns (0, s1, w1)"
    and "ivshmem_server_handle_new_conn h os s1 w1 = Returns (0, s2, w2)"
    and "ivshmem_server_free_peer os s2 1 w2 = Returns (s3, w3)"
    and "ivshmem_server_handle_new_conn h os s3 w3 = Returns (0, s4, w4)"
  shows "map peer_id (peer_list s1) = [0] \<and> map peer_id (peer_list s2) = [0, 1] \<and>
         map peer_id (peer_list s3) = [0] \<and> map peer_id (peer_list s4) = [0, 2] \<and>
         cur_id s2 = 2 \<and> cur_id s3 = 2 \<and> cur_id s4 = 3"
proof -
  from freshly_started_state[OF assms(1)] have f: "peer_list s0 = []" "cur_id s0 = 0"
    by simp_all
  from handle_new_conn_next_id[OF assms(2)] f
  have a: "map peer_id (peer_list s1) = [0]" "cur_id s1 = 1" by simp_all
  have "cur_id s1 \<notin> set (map peer_id (peer_list s1))" unfolding a by simp
  then have "cur_id s1 \<notin> peer_id ` set (peer_list s1)" by simp
  from handle_new_conn_next_id[OF assms(3) this] a
  have b: "map peer_id (peer_list s2) = [0, 1]" "cur_id s2 = 2" by simp_all
  from free_peer_step[OF assms(4)]
  have s3: "s3 = s2\<lparr>peer_list := remove_nth 1 (peer_list s2)\<rparr>" by simp
  from b(1) have "length (peer_list s2) = 2" by (metis length_map length_Cons list.size(3) numeral_2_eq_2)
  then obtain p q where pq: "peer_list s2 = [p, q]"
    by (metis (no_types, opaque_lifting) length_0_conv length_Suc_conv numeral_2_eq_2)
  with b(1) s3 have c: "map peer_id (peer_list s3) = [0]" "cur_id s3 = 2"
    using b(2) by (simp_all add: remove_nth_def)
  have "cur_id s3 \<notin> set (map peer_id (peer_list s3))" unfolding c by simp
  then have "cur_id s3 \<notin> peer_id ` set (peer_list s3)" by simp
  from handle_new_conn_next_id[OF assms(5) this] c
  have d: "map peer_id (peer_list s4) = [0, 2]" "cur_id s4 = 3" by simp_all
  from a b c d show ?thesis by simp
qed

text \<open>C4 (as amended) on the scenario A, B, B's disconnection, C.\<close>

theorem ids_not_reused_at_once_witness:
  "freshly_started hdr0 os_ok ''/tmp/sock'' ''shm'' 4096 2 False empty_world
     started_server started_world \<and>
   ivshmem_server_handle_new_conn hdr0 os_ok started_server started_world =
     Returns (0, server_A, world_A) \<and>
   ivshmem_server_handle_new_conn hdr0 os_ok server_A world_A = Returns (0, server_AB, world_AB) \<and>
   ivshmem_server_free_peer os_ok server_AB 1 world_AB = Returns (server_A', world_A') \<and>
   ivshmem_server_handle_new_conn hdr0 os_ok server_A' world_A' =
     Returns (0, server_AC, world_AC) \<and>
   map peer_id (peer_list server_AB) = [0, 1] \<and> map peer_id (peer_list server_A') = [0] \<and>
   map peer_id (peer_list server_AC) = [0, 2] \<and> cur_id server_A' = 2 \<and> cur_id server_AC = 3"
  using ids_not_reused_at_once[OF ex_fresh ex_A ex_AB ex_A' ex_AC]
    ex_fresh ex_A ex_AB ex_A' ex_AC
  by simp

text \<open>
  C4 as stated fails: after A and B (ids 0 and 1) and the disconnection of B, the
  registry holds id 0 and the next peer is given id 2, not id 1.
\<close>

theorem id_reuse_counterexample:
  "freshly_started hdr0 os_ok ''/tmp/sock'' ''shm'' 4096 2 False empty_world
     started_server started_world \<and>
   ids_after (run hdr0 os_ok [Connect, Connect] started_server started_world) = Some [0, 1] \<and>
   ids_after (run hdr0 os_ok [Connect, Connect, Disconnect 1] started_server started_world)
     = Some [0] \<and>
   ids_after (run hdr0 os_ok [Connect, Connect, Disconnect 1, Connect] started_server
     started_world) = Some [0, 2]"
  unfolding ex_run_AB ex_run ex_run_AC using ex_fresh
  by (simp add: ids_after_def server_AB_def server_A'_def
      server_AC_def peer_A_def peer_B_def peer_C_def)

section \<open>Properties of the disconnection\<close>

text \<open>
  C5 (as amended). The disconnection of a registered peer P (at position \<open>i\<close>, with its
  vector count within its array) returns with P removed from the registry, and the
  calls it makes are, in this order: the close of P's socket, one \<^verbatim>\<open>sendmsg\<close> per
  remaining peer of the registry whose payload is P's id and which carries no
  descriptor, the close of each of P's vectors, and the release of P. P is not among
  the receivers, since the loop runs over the registry without P. When the sockets of
  the registry are pairwise different, each remaining peer's socket is sent exactly
  that one message and P's socket is sent none. The result of each \<^verbatim>\<open>sendmsg\<close> is
  ignored: the messages delivered to a socket are the messages sent to it when every
  \<^verbatim>\<open>sendmsg\<close> of the disconnection has transferred the whole payload.
\<close>

theorem disconnection_broadcast:
  assumes "i < length (peer_list s)"
    and "vectors_count (peer_list s ! i) \<le> length (vectors (peer_list s ! i))"
  shows "\<exists>w'. ivshmem_server_free_peer os s i w =
            Returns (s\<lparr>peer_list := remove_nth i (peer_list s)\<rparr>, w') \<and>
          calls_since w w' =
            Close (peer_sock_fd (peer_list s ! i)) #
            map (\<lambda>q. Sendmsg (peer_sock_fd q) (peer_id (peer_list s ! i)) None)
              (remove_nth i (peer_list s)) @
            map Close (take (vectors_count (peer_list s ! i)) (vectors (peer_list s ! i))) @
            [G_free] \<and>
          (distinct (map peer_sock_fd (peer_list s)) \<longrightarrow>
             (\<forall>q\<in>set (remove_nth i (peer_list s)).
                messages_to (peer_sock_fd q) (calls_since w w') =
                  [(peer_id (peer_list s ! i), None)]) \<and>
             messages_to (peer_sock_fd (peer_list s ! i)) (calls_since w w') = []) \<and>
          ((\<forall>e\<in>set (events_since w w'). is_send (fst e) \<longrightarrow> snd e = sizeof_long) \<longrightarrow>
             (\<forall>sock. delivered_to sock (events_since w w') =
                messages_to sock (calls_since w w')))"
proof -
  let ?P = "peer_list s ! i"
  let ?rest = "remove_nth i (peer_list s)"
  from free_peer_total[OF assms, of os w] obtain s' w' where
    r: "ivshmem_server_free_peer os s i w = Returns (s', w')" by force
  from r obtain rc evB evV where
    s': "s' = s\<lparr>peer_list := ?rest\<rparr>"
    and t: "trace w' = trace w @ (Close (peer_sock_fd ?P), rc) # evB @ evV @ [(G_free, 0)]"
    and cB: "map fst evB = map (\<lambda>q. Sendmsg (peer_sock_fd q) (peer_id ?P) None) ?rest"
    and cV: "map fst evV = map Close (take (vectors_count ?P) (vectors ?P))"
    by (cases rule: free_peer_returns) blast
  have calls: "calls_since w w' =
      Close (peer_sock_fd ?P) # map (\<lambda>q. Sendmsg (peer_sock_fd q) (peer_id ?P) None) ?rest @
      map Close (take (vectors_count ?P) (vectors ?P)) @ [G_free]"
    using calls_since_append[OF t] cB cV by simp
  have msgs: "messages_to sock (calls_since w w') =
      map (\<lambda>q. (peer_id ?P, None)) (filter (\<lambda>q. peer_sock_fd q = sock) ?rest)" for sock
    unfolding calls by (simp add: messages_to_deletion)
  have per: "(\<forall>q\<in>set ?rest. messages_to (peer_sock_fd q) (calls_since w w') =
                  [(peer_id ?P, None)]) \<and>
             messages_to (peer_sock_fd ?P) (calls_since w w') = []"
    if d: "distinct (map peer_sock_fd (peer_list s))"
  proof
    from d have dr: "distinct (map peer_sock_fd ?rest)" by (rule distinct_map_remove_nth)
    show "\<forall>q\<in>set ?rest. messages_to (peer_sock_fd q) (calls_since w w') =
        [(peer_id ?P, None)]"
      by (simp add: msgs filter_same_key[OF dr])
    from distinct_remove_nth_key[OF d assms(1)]
    show "messages_to (peer_sock_fd ?P) (calls_since w w') = []"
      by (simp add: msgs filter_no_key)
  qed
  have del: "\<forall>sock. delivered_to sock (events_since w w') = messages_to sock (calls_since w w')"
    if "\<forall>e\<in>set (events_since w w'). is_send (fst e) \<longrightarrow> snd e = sizeof_long"
    using delivered_all[OF that] by (simp add: calls_since_def)
  show ?thesis
    using r s' calls per del by blast
qed

text \<open>C5 (as amended) on the scenario: B disconnects while A is registered.\<close>

theorem disconnection_broadcast_witness:
  "1 < length (peer_list server_AB) \<and>
   vectors_count (peer_list server_AB ! 1) \<le> length (vectors (peer_list server_AB ! 1)) \<and>
   distinct (map peer_sock_fd (peer_list server_AB)) \<and>
   ivshmem_server_free_peer os_ok server_AB 1 world_AB = Returns (server_A', world_A') \<and>
   calls_since world_AB world_A' = [Close 17, Sendmsg 8 1 None, Close 19, Close 20, G_free] \<and>
   messages_to 8 (calls_since world_AB world_A') = [(1, None)] \<and>
   messages_to 17 (calls_since world_AB world_A') = [] \<and>
   list_all (\<lambda>e. \<not> is_send (fst e) \<or> snd e = sizeof_long) (events_since world_AB world_A') \<and>
   delivered_to 8 (events_since world_AB world_A') = [(1, None)]"
proof -
  have a: "1 < length (peer_list server_AB)"
    and b: "vectors_count (peer_list server_AB ! 1) \<le> length (vectors (peer_list server_AB ! 1))"
    and d: "distinct (map peer_sock_fd (peer_list server_AB))"
    and p: "peer_list server_AB ! 1 = peer_B" "remove_nth 1 (peer_list server_AB) = [peer_A]"
    by (simp_all add: server_AB_def peer_A_def peer_B_def remove_nth_def)
  have ev: "events_since world_AB world_A' =
      [(Close 17, 0), (Sendmsg 8 1 None, 8), (Close 19, 0), (Close 20, 0), (G_free, 0)]"
    by (simp add: events_since_def world_A'_def)
  have full: "\<forall>e\<in>set (events_since world_AB world_A'). is_send (fst e) \<longrightarrow> snd e = sizeof_long"
    unfolding ev by (simp add: is_send_def sizeof_long_def)
  from disconnection_broadcast[OF a b, of os_ok world_AB] obtain w' where
    r: "ivshmem_server_free_peer os_ok server_AB 1 world_AB =
            Returns (server_AB\<lparr>peer_list := remove_nth 1 (peer_list server_AB)\<rparr>, w')"
    and c: "calls_since world_AB w' =
            Close (peer_sock_fd (peer_list server_AB ! 1)) #
            map (\<lambda>q. Sendmsg (peer_sock_fd q) (peer_id (peer_list server_AB ! 1)) None)
              (remove_nth 1 (peer_list server_AB)) @
            map Close (take (vectors_count (peer_list server_AB ! 1))
              (vectors (peer_list server_AB ! 1))) @
            [G_free]"
    and m: "distinct (map peer_sock_fd (peer_list server_AB)) \<longrightarrow>
             (\<forall>q\<in>set (remove_nth 1 (peer_list server_AB)).
                messages_to (peer_sock_fd q) (calls_since world_AB w') =
                  [(peer_id (peer_list server_AB ! 1), None)]) \<and>
             messages_to (peer_sock_fd (peer_list server_AB ! 1)) (calls_since world_AB w') = []"
    and dl: "(\<forall>e\<in>set (events_since world_AB w'). is_send (fst e) \<longrightarrow> snd e = sizeof_long) \<longrightarrow>
             (\<forall>sock. delivered_to sock (events_since world_AB w') =
                messages_to sock (calls_since world_AB w'))"
    by blast
  from r ex_A' have w': "w' = world_A'" by simp
  from c have c': "calls_since world_AB world_A' =
      [Close 17, Sendmsg 8 1 None, Close 19, Close 20, G_free]"
    unfolding w' p by (simp add: peer_A_def peer_B_def)
  from m d have m': "messages_to 8 (calls_since world_AB world_A') = [(1, None)]"
    "messages_to 17 (calls_since world_AB world_A') = []"
    unfolding w' p by (simp_all add: peer_A_def peer_B_def)
  from dl full have "delivered_to 8 (events_since world_AB world_A') =
      messages_to 8 (calls_since world_AB world_A')"
    unfolding w' by blast
  with m' have d': "delivered_to 8 (events_since world_AB world_A') = [(1, None)]" by simp
  have l: "list_all (\<lambda>e. \<not> is_send (fst e) \<or> snd e = sizeof_long)
      (events_since world_AB world_A')"
    using full by (auto simp: list_all_iff)
  show ?thesis using a b d ex_A' c' m' d' l by simp
qed

text \<open>
  C5 as stated fails: B disconnects while A's socket takes no message. The
  disconnection returns, A is the remaining peer of the registry, one message was
  sent to A's socket and A has received none.
\<close>

theorem disconnection_not_received_counterexample:
  "ivshmem_server_free_peer (os_deaf 8) server_AB 1 world_AB =
     Returns (server_A', world_A'_deaf) \<and>
   map peer_sock_fd (peer_list server_A') = [8] \<and>
   events_since world_AB world_A'_deaf =
     [(Close 17, 0), (Sendmsg 8 1 None, - 1), (Close 19, 0), (Close 20, 0), (G_free, 0)] \<and>
   messages_to 8 (calls_since world_AB world_A'_deaf) = [(1, None)] \<and>
   delivered_to 8 (events_since world_AB world_A'_deaf) = []"
  using ex_free_deaf
  by (simp add: server_A'_def peer_A_def events_since_def calls_since_def world_A'_deaf_def
      sizeof_long_def)

section \<open>Properties of the handshake\<close>

text \<open>
  C2 (as amended). Take a handshake that succeeds, in a server whose shared-memory
  descriptor is valid and whose registered peers have valid descriptors in the first
  \<open>n_vectors\<close> slots of their arrays, and let the sockets of the registry after it be
  pairwise different. Then the registry has gained one peer P with \<open>n_vectors\<close>
  vectors; the calls of the handshake are the accept, the allocation, \<open>n_vectors\<close>
  eventfds, the three initial messages, the advertisement of P to every registered
  peer, of every registered peer to P, and of P to itself, in this order; P's socket
  is sent, in this order, the protocol version without descriptor, P's id without
  descriptor, the shared-memory descriptor, then for every registered peer one message
  per vector (that peer's id, that vector), then one message per vector of P (P's id,
  that vector); and every registered peer's socket is sent exactly one message per
  vector of P, in index order, each with P's id and that vector. The three initial
  messages have been transferred, at least in part; the results of the other
  \<^verbatim>\<open>sendmsg\<close> are ignored: the messages delivered to a socket are the messages sent
  to it when every \<^verbatim>\<open>sendmsg\<close> of the handshake has transferred the whole payload.
\<close>

theorem handshake_messages:
  assumes "ivshmem_server_handle_new_conn h os s w = Returns (0, s', w')"
    and "0 \<le> shm_fd s"
    and "\<forall>q\<in>set (peer_list s). \<forall>v\<in>set (take (n_vectors s) (vectors q)). 0 \<le> v"
    and "distinct (map peer_sock_fd (peer_list s'))"
  shows "\<exists>P. peer_list s' = peer_list s @ [P] \<and> vectors_count P = n_vectors s \<and>
      length (take (n_vectors s) (vectors P)) = n_vectors s \<and>
      calls_since w w' =
        Accept4 (sock_fd s) # G_malloc0 # replicate (n_vectors s) Eventfd @
        initial_info h s P @
        concat (map (\<lambda>q. advertisement (peer_sock_fd q) (peer_id P)
                           (take (n_vectors s) (vectors P))) (peer_list s)) @
        concat (map (\<lambda>q. advertisement (peer_sock_fd P) (peer_id q)
                           (take (n_vectors s) (vectors q))) (peer_list s)) @
        advertisement (peer_sock_fd P) (peer_id P) (take (n_vectors s) (vectors P)) \<and>
      messages_to (peer_sock_fd P) (calls_since w w') =
        [(IVSHMEM_PROTOCOL_VERSION h, None), (peer_id P, None), (- 1, Some (shm_fd s))] @
        concat (map (\<lambda>q. map (\<lambda>v. (peer_id q, Some v)) (take (n_vectors s) (vectors q)))
                  (peer_list s)) @
        map (\<lambda>v. (peer_id P, Some v)) (take (n_vectors s) (vectors P)) \<and>
      (\<forall>q\<in>set (peer_list s).
         messages_to (peer_sock_fd q) (calls_since w w') =
           map (\<lambda>v. (peer_id P, Some v)) (take (n_vectors s) (vectors P))) \<and>
      (\<forall>e\<in>set (take 3 (filter (\<lambda>e. is_send (fst e)) (events_since w w'))). 0 < snd e) \<and>
      ((\<forall>e\<in>set (events_since w w'). is_send (fst e) \<longrightarrow> snd e = sizeof_long) \<longrightarrow>
         (\<forall>sock. delivered_to sock (events_since w w') =
            messages_to sock (calls_since w w')))"
proof -
  let ?newfd = "fst (os (trace w) (Accept4 (sock_fd s)))"
  have acc: "0 \<le> ?newfd"
    using assms(1) handle_new_conn_accept_failed[where os = os and w = w and s = s and h = h]
    by (cases "?newfd < 0") auto
  from acc assms(1) show ?thesis
  proof (cases rule: handle_new_conn_returns)
    case (failure c p evE evI evR)
    then show ?thesis by simp
  next
    case (success c P evE evI evR)
    let ?vP = "take (n_vectors s) (vectors P)"
    have pv: "?vP = map snd evE" "vectors_count P = n_vectors s" "peer_sock_fd P = ?newfd"
      "peer_id P = c"
      using success(15) by (simp_all add: success(3))
    have len: "length ?vP = n_vectors s" using pv success(8) by simp
    have nonneg: "\<forall>v\<in>set ?vP. 0 \<le> v" using pv success(9) by simp
    have pl: "peer_list s' = peer_list s @ [P]" using success(7) by simp
    from assms(4) pl have ds: "distinct (map peer_sock_fd (peer_list s))"
      and fresh: "?newfd \<notin> peer_sock_fd ` set (peer_list s)"
      using pv by auto
    have calls: "calls_since w w' =
        Accept4 (sock_fd s) # G_malloc0 # replicate (n_vectors s) Eventfd @
        initial_info h s P @
        concat (map (\<lambda>q. advertisement (peer_sock_fd q) (peer_id P) ?vP) (peer_list s)) @
        concat (map (\<lambda>q. advertisement (peer_sock_fd P) (peer_id q)
                           (take (n_vectors s) (vectors q))) (peer_list s)) @
        advertisement (peer_sock_fd P) (peer_id P) ?vP"
      using calls_since_append[OF success(5)] success(4,8,11,13) pv(3,4) by simp
    have others: "messages_to ?newfd
          (concat (map (\<lambda>q. advertisement (peer_sock_fd q) c ?vP) (peer_list s))) = []"
    proof -
      from fresh have "\<forall>q\<in>set (peer_list s). peer_sock_fd q \<noteq> ?newfd" by (metis imageI)
      then have "map (\<lambda>q. messages_to ?newfd (advertisement (peer_sock_fd q) c ?vP))
          (peer_list s) = map (\<lambda>q. []) (peer_list s)"
        by (intro map_cong) (simp_all add: messages_to_advertisement)
      then show ?thesis by (simp only: messages_to_concat concat_map_Nil)
    qed
    have tonew: "messages_to ?newfd
          (concat (map (\<lambda>q. advertisement ?newfd (peer_id q) (take (n_vectors s) (vectors q)))
                     (peer_list s))) =
        concat (map (\<lambda>q. map (\<lambda>v. (peer_id q, Some v)) (take (n_vectors s) (vectors q)))
                  (peer_list s))"
    proof -
      have "map (\<lambda>q. messages_to ?newfd
                (advertisement ?newfd (peer_id q) (take (n_vectors s) (vectors q))))
          (peer_list s) =
          map (\<lambda>q. map (\<lambda>v. (peer_id q, Some v)) (take (n_vectors s) (vectors q))) (peer_list s)"
        using assms(3) by (intro map_cong) (simp_all add: messages_to_advertisement map_cmsg_of_nonneg)
      then show ?thesis by (simp only: messages_to_concat)
    qed
    have self: "messages_to ?newfd (advertisement ?newfd c ?vP) = map (\<lambda>v. (c, Some v)) ?vP"
      using nonneg by (simp add: messages_to_advertisement map_cmsg_of_nonneg)
    have m_new: "messages_to (peer_sock_fd P) (calls_since w w') =
        [(IVSHMEM_PROTOCOL_VERSION h, None), (peer_id P, None), (- 1, Some (shm_fd s))] @
        concat (map (\<lambda>q. map (\<lambda>v. (peer_id q, Some v)) (take (n_vectors s) (vectors q)))
                  (peer_list s)) @
        map (\<lambda>v. (peer_id P, Some v)) ?vP"
      unfolding calls using others tonew self assms(2) pv(3,4)
      by (simp add: messages_to_initial_info cmsg_of_def)
    have m_old: "messages_to (peer_sock_fd q) (calls_since w w') =
           map (\<lambda>v. (peer_id P, Some v)) ?vP" if q: "q \<in> set (peer_list s)" for q
    proof -
      from q fresh have ne: "?newfd \<noteq> peer_sock_fd q" by (metis imageI)
      have a: "messages_to (peer_sock_fd q)
          (concat (map (\<lambda>q. advertisement (peer_sock_fd q) c ?vP) (peer_list s))) =
          map (\<lambda>v. (c, Some v)) ?vP"
      proof -
        have "map (\<lambda>q'. messages_to (peer_sock_fd q) (advertisement (peer_sock_fd q') c ?vP))
            (peer_list s) =
          map (\<lambda>q'. if peer_sock_fd q' = peer_sock_fd q then map (\<lambda>v. (c, Some v)) ?vP
                     else []) (peer_list s)"
          using nonneg by (intro map_cong) (simp_all add: messages_to_advertisement map_cmsg_of_nonneg)
        then show ?thesis
          using concat_map_same_key[OF ds q, of "map (\<lambda>v. (c, Some v)) ?vP"]
          by (simp only: messages_to_concat)
      qed
      have b: "messages_to (peer_sock_fd q)
          (concat (map (\<lambda>q. advertisement ?newfd (peer_id q) (take (n_vectors s) (vectors q)))
                     (peer_list s))) = []"
      proof -
        have "map (\<lambda>q'. messages_to (peer_sock_fd q)
                  (advertisement ?newfd (peer_id q') (take (n_vectors s) (vectors q'))))
            (peer_list s) = map (\<lambda>q'. []) (peer_list s)"
          using ne by (intro map_cong) (simp_all add: messages_to_advertisement)
        then show ?thesis by (simp only: messages_to_concat concat_map_Nil)
      qed
      show ?thesis
        unfolding calls using a b ne pv(3,4)
        by (simp add: messages_to_initial_info messages_to_advertisement)
    qed
    have first3: "\<forall>e\<in>set (take 3 (filter (\<lambda>e. is_send (fst e)) (events_since w w'))). 0 < snd e"
    proof -
      have ev: "events_since w w' = (Accept4 (sock_fd s), ?newfd) # (G_malloc0, 0) # evE @ evI @ evR"
        using events_since_append[OF success(5)] .
      have sR: "\<forall>c\<in>set (map fst evR). is_send c"
        unfolding success(13) using is_send_advertisement by auto
      have sI: "\<forall>c\<in>set (map fst evI). is_send c"
        unfolding success(11) by (rule is_send_initial_info)
      have nE: "\<forall>c\<in>set (map fst evE). \<not> is_send c"
        by (subst success(4)) (simp add: is_send_def)
      have lI: "length evI = 3"
        using arg_cong[OF success(11), of length] by (simp add: initial_info_def)
      have fs: "filter (\<lambda>e. is_send (fst e)) (events_since w w') = evI @ evR"
        unfolding ev using filter_fst_all[OF sR] filter_fst_all[OF sI] filter_fst_none[OF nE]
        by (simp add: is_send_def)
      show ?thesis unfolding fs using lI success(12) by simp
    qed
    have del: "\<forall>sock. delivered_to sock (events_since w w') = messages_to sock (calls_since w w')"
      if "\<forall>e\<in>set (events_since w w'). is_send (fst e) \<longrightarrow> snd e = sizeof_long"
      using delivered_all[OF that] by (simp add: calls_since_def)
    show ?thesis using pl pv(2) len calls m_new m_old first3 del by blast
  qed
qed

text \<open>C2 (as amended) on the scenario: B connects while A is registered.\<close>

theorem handshake_messages_witness:
  "ivshmem_server_handle_new_conn hdr0 os_ok server_A world_A = Returns (0, server_AB, world_AB) \<and>
   0 \<le> shm_fd server_A \<and>
   list_all (\<lambda>q. list_all (\<lambda>v. 0 \<le> v) (take (n_vectors server_A) (vectors q)))
     (peer_list server_A) \<and>
   distinct (map peer_sock_fd (peer_list server_AB)) \<and>
   peer_list server_AB = peer_list server_A @ [peer_B] \<and>
   messages_to 17 (calls_since world_A world_AB) =
     [(0, None), (1, None), (- 1, Some 3), (0, Some 10), (0, Some 11), (1, Some 19), (1, Some 20)] \<and>
   messages_to 8 (calls_since world_A world_AB) = [(1, Some 19), (1, Some 20)] \<and>
   list_all (\<lambda>e. \<not> is_send (fst e) \<or> snd e = sizeof_long) (events_since world_A world_AB) \<and>
   delivered_to 8 (events_since world_A world_AB) = [(1, Some 19), (1, Some 20)]"
proof -
  have b: "0 \<le> shm_fd server_A"
    and c: "\<forall>q\<in>set (peer_list server_A). \<forall>v\<in>set (take (n_vectors server_A) (vectors q)). 0 \<le> v"
    and d: "distinct (map peer_sock_fd (peer_list server_AB))"
    and e: "peer_list server_AB = peer_list server_A @ [peer_B]"
    by (simp_all add: server_A_def server_AB_def started_server_def peer_A_def peer_B_def)
  have full: "\<forall>e\<in>set (events_since world_A world_AB). is_send (fst e) \<longrightarrow> snd e = sizeof_long"
    by (simp add: events_since_def world_AB_def is_send_def sizeof_long_def)
  from handshake_messages[OF ex_AB b c d] obtain P where
    pl: "peer_list server_AB = peer_list server_A @ [P]"
    and m: "messages_to (peer_sock_fd P) (calls_since world_A world_AB) =
        [(IVSHMEM_PROTOCOL_VERSION hdr0, None), (peer_id P, None), (- 1, Some (shm_fd server_A))] @
        concat (map (\<lambda>q. map (\<lambda>v. (peer_id q, Some v)) (take (n_vectors server_A) (vectors q)))
                  (peer_list server_A)) @
        map (\<lambda>v. (peer_id P, Some v)) (take (n_vectors server_A) (vectors P))"
    and o: "\<forall>q\<in>set (peer_list server_A).
         messages_to (peer_sock_fd q) (calls_since world_A world_AB) =
           map (\<lambda>v. (peer_id P, Some v)) (take (n_vectors server_A) (vectors P))"
    and dl: "(\<forall>e\<in>set (events_since world_A world_AB). is_send (fst e) \<longrightarrow> snd e = sizeof_long) \<longrightarrow>
         (\<forall>sock. delivered_to sock (events_since world_A world_AB) =
            messages_to sock (calls_since world_A world_AB))"
    by blast
  from pl e have P: "P = peer_B" by simp
  from m have m17: "messages_to 17 (calls_since world_A world_AB) =
     [(0, None), (1, None), (- 1, Some 3), (0, Some 10), (0, Some 11), (1, Some 19), (1, Some 20)]"
    unfolding P by (simp add: server_A_def started_server_def peer_A_def peer_B_def hdr0_def)
  from o have m8: "messages_to 8 (calls_since world_A world_AB) = [(1, Some 19), (1, Some 20)]"
    unfolding P by (simp add: server_A_def started_server_def peer_A_def peer_B_def)
  from dl full have "delivered_to 8 (events_since world_A world_AB) =
      messages_to 8 (calls_since world_A world_AB)" by blast
  with m8 have d8: "delivered_to 8 (events_since world_A world_AB) = [(1, Some 19), (1, Some 20)]"
    by simp
  have l: "list_all (\<lambda>e. \<not> is_send (fst e) \<or> snd e = sizeof_long)
      (events_since world_A world_AB)"
    using full by (auto simp: list_all_iff)
  from c have c': "list_all (\<lambda>q. list_all (\<lambda>v. 0 \<le> v) (take (n_vectors server_A) (vectors q)))
     (peer_list server_A)"
    by (simp add: list_all_iff)
  show ?thesis using ex_AB b c' d e m17 m8 l d8 by simp
qed

text \<open>
  C2 as stated fails: B connects while A is registered and A's socket takes no
  message. The handshake succeeds and registers B, the two advertisements of B were
  sent to A's socket, and A has received none.
\<close>

theorem handshake_not_received_counterexample:
  "ivshmem_server_handle_new_conn hdr0 (os_deaf 8) server_A world_A =
     Returns (0, server_AB, world_AB_deaf) \<and>
   map peer_sock_fd (peer_list server_A) = [8] \<and> n_vectors server_A = 2 \<and>
   messages_to 8 (calls_since world_A world_AB_deaf) = [(1, Some 19), (1, Some 20)] \<and>
   filter (\<lambda>e. fst e = Sendmsg 8 1 (Some 19) \<or> fst e = Sendmsg 8 1 (Some 20))
     (events_since world_A world_AB_deaf) =
     [(Sendmsg 8 1 (Some 19), - 1), (Sendmsg 8 1 (Some 20), - 1)] \<and>
   delivered_to 8 (events_since world_A world_AB_deaf) = []"
  using ex_conn_deaf
  by (simp add: server_A_def started_server_def peer_A_def events_since_def calls_since_def
      world_AB_deaf_def sizeof_long_def)

text \<open>
  C3. Take a connection that was accepted and whose handshake returns. If it returns
  -1, the registry is as it was, and the calls are: the accept, the allocation of the
  peer, at most \<open>n_vectors\<close> eventfds, a prefix of the three initial messages (all to
  the new socket), the close of every eventfd that was created, last created first,
  the close of the new socket, and the release of the peer; so the descriptors closed
  are exactly the eventfds created and the new socket. If the registry has changed,
  the handshake returned 0, the registry has gained one peer at its end and every
  message of the handshake has been sent: the three initial ones and the three
  advertisements, which run over the registry as it was and over the first
  \<open>n_vectors\<close> slots of each array.
\<close>

theorem failed_handshake_unwinds:
  assumes "0 \<le> fst (os (trace w) (Accept4 (sock_fd s)))"
    and "ivshmem_server_handle_new_conn h os s w = Returns (ret, s', w')"
  shows "(ret = - 1 \<longrightarrow>
           peer_list s' = peer_list s \<and>
           fds_closed (calls_since w w') = rev (eventfds_created (events_since w w')) @
             [fst (os (trace w) (Accept4 (sock_fd s)))] \<and>
           (\<exists>k m P. k \<le> n_vectors s \<and> peer_sock_fd P = fst (os (trace w) (Accept4 (sock_fd s))) \<and>
              calls_since w w' =
                Accept4 (sock_fd s) # G_malloc0 # replicate k Eventfd @
                take m (initial_info h s P) @
                map Close (rev (eventfds_created (events_since w w'))) @
                [Close (fst (os (trace w) (Accept4 (sock_fd s)))), G_free])) \<and>
         (peer_list s' \<noteq> peer_list s \<longrightarrow>
           ret = 0 \<and>
           (\<exists>P. peer_list s' = peer_list s @ [P] \<and>
              filter is_send (calls_since w w') =
                initial_info h s P @
                concat (map (\<lambda>q. advertisement (peer_sock_fd q) (peer_id P)
                                   (take (n_vectors s) (vectors P))) (peer_list s)) @
                concat (map (\<lambda>q. advertisement (peer_sock_fd P) (peer_id q)
                                   (take (n_vectors s) (vectors q))) (peer_list s)) @
                advertisement (peer_sock_fd P) (peer_id P) (take (n_vectors s) (vectors P))))"
  using assms
proof (cases rule: handle_new_conn_returns)
  case (success c P evE evI evR)
  let ?newfd = "fst (os (trace w) (Accept4 (sock_fd s)))"
  let ?vP = "take (n_vectors s) (vectors P)"
  have pv: "peer_sock_fd P = ?newfd" "peer_id P = c"
    by (simp_all add: success(3))
  have calls: "calls_since w w' =
      Accept4 (sock_fd s) # G_malloc0 # replicate (n_vectors s) Eventfd @ initial_info h s P @
      (concat (map (\<lambda>q. advertisement (peer_sock_fd q) c ?vP) (peer_list s)) @
       concat (map (\<lambda>q. advertisement ?newfd (peer_id q) (take (n_vectors s) (vectors q)))
                 (peer_list s)) @
       advertisement ?newfd c ?vP)"
    using calls_since_append[OF success(5)] success(4,8,11,13) by simp
  have sends: "\<forall>c\<in>set
      (concat (map (\<lambda>q. advertisement (peer_sock_fd q) c ?vP) (peer_list s)) @
       concat (map (\<lambda>q. advertisement ?newfd (peer_id q) (take (n_vectors s) (vectors q)))
                 (peer_list s)) @
       advertisement ?newfd c ?vP). is_send c"
    using is_send_advertisement by auto
  have "filter is_send (calls_since w w') =
      initial_info h s P @
      concat (map (\<lambda>q. advertisement (peer_sock_fd q) (peer_id P) ?vP) (peer_list s)) @
      concat (map (\<lambda>q. advertisement (peer_sock_fd P) (peer_id q)
                         (take (n_vectors s) (vectors q))) (peer_list s)) @
      advertisement (peer_sock_fd P) (peer_id P) ?vP"
    unfolding calls pv
    using filter_is_send_all[OF sends] filter_is_send_all[OF is_send_initial_info, of h s P]
    by (simp add: is_send_def)
  moreover have "peer_list s' = peer_list s @ [P]" using success(7) by simp
  ultimately show ?thesis using success(6) by auto
next
  case (failure c P evE evI evR)
  let ?newfd = "fst (os (trace w) (Accept4 (sock_fd s)))"
  let ?made = "filter (\<lambda>r. 0 \<le> r) (map snd evE)"
  have pv: "peer_sock_fd P = ?newfd" by (simp add: failure(3))
  from failure(8) have cI: "map fst evI = take (length evI) (initial_info h s P)"
    and k: "length evE \<le> n_vectors s"
    by auto
  have ev: "events_since w w' =
      (Accept4 (sock_fd s), ?newfd) # (G_malloc0, 0) # evE @ evI @ evR"
    using events_since_append[OF failure(5)] .
  have sI: "\<forall>c\<in>set (map fst evI). is_send c"
    unfolding cI using is_send_initial_info[of h s P] by (auto dest: in_set_takeD)
  have "Eventfd \<notin> set (map fst evI)" using sends_not_Eventfd[OF sI] .
  then have mI: "eventfds_created evI = []" by (rule eventfds_created_none)
  have "Eventfd \<notin> set (map fst evR)" unfolding failure(9) by auto
  then have mR: "eventfds_created evR = []" by (rule eventfds_created_none)
  have made: "eventfds_created (events_since w w') = ?made"
    unfolding ev using eventfds_created_all[OF failure(4)] mI mR
    by (simp add: eventfds_created_def)
  have calls: "calls_since w w' =
      Accept4 (sock_fd s) # G_malloc0 # replicate (length evE) Eventfd @
      take (length evI) (initial_info h s P) @ map Close (rev ?made) @ [Close ?newfd, G_free]"
    using calls_since_append[OF failure(5)] failure(4,9) cI by simp
  have closed: "fds_closed (calls_since w w') = rev ?made @ [?newfd]"
    unfolding calls
    using fds_closed_sends[OF sI[unfolded cI]] by simp
  have "\<exists>k m P. k \<le> n_vectors s \<and> peer_sock_fd P = ?newfd \<and>
      calls_since w w' =
        Accept4 (sock_fd s) # G_malloc0 # replicate k Eventfd @ take m (initial_info h s P) @
        map Close (rev (eventfds_created (events_since w w'))) @ [Close ?newfd, G_free]"
    using k pv calls unfolding made by blast
  moreover have "peer_list s' = peer_list s" using failure(7) by simp
  ultimately show ?thesis using closed made failure(6) by simp
qed


text \<open>
  C3 on the scenario: B's second eventfd fails while A is registered; and B's
  handshake succeeds.
\<close>

theorem failed_handshake_unwinds_witness:
  "0 \<le> fst (os_eventfd_limit 17 (trace world_A) (Accept4 (sock_fd server_A))) \<and>
   ivshmem_server_handle_new_conn hdr0 (os_eventfd_limit 17) server_A world_A =
     Returns (- 1, server_A_aborted, world_A_aborted) \<and>
   peer_list server_A_aborted = peer_list server_A \<and>
   eventfds_created (events_since world_A world_A_aborted) = [19] \<and>
   fds_closed (calls_since world_A world_A_aborted) = [19, 17] \<and>
   0 \<le> fst (os_ok (trace world_A) (Accept4 (sock_fd server_A))) \<and>
   ivshmem_server_handle_new_conn hdr0 os_ok server_A world_A = Returns (0, server_AB, world_AB) \<and>
   peer_list server_AB \<noteq> peer_list server_A \<and>
   peer_list server_AB = peer_list server_A @ [peer_B] \<and>
   filter is_send (calls_since world_A world_AB) =
     [Sendmsg 17 0 None, Sendmsg 17 1 None, Sendmsg 17 (- 1) (Some 3),
      Sendmsg 8 1 (Some 19), Sendmsg 8 1 (Some 20),
      Sendmsg 17 0 (Some 10), Sendmsg 17 0 (Some 11),
      Sendmsg 17 1 (Some 19), Sendmsg 17 1 (Some 20)]"
proof -
  have a: "0 \<le> fst (os_eventfd_limit 17 (trace world_A) (Accept4 (sock_fd server_A)))"
    by (simp add: ex_aborted_accept)
  have m: "eventfds_created (events_since world_A world_A_aborted) = [19]"
    by (simp add: eventfds_created_def events_since_def world_A_aborted_def)
  from failed_handshake_unwinds[OF a ex_aborted]
  have f: "peer_list server_A_aborted = peer_list server_A"
    "fds_closed (calls_since world_A world_A_aborted) =
       rev (eventfds_created (events_since world_A world_A_aborted)) @
       [fst (os_eventfd_limit 17 (trace world_A) (Accept4 (sock_fd server_A)))]"
    by simp_all
  have b: "0 \<le> fst (os_ok (trace world_A) (Accept4 (sock_fd server_A)))"
    by (simp add: os_ok_def)
  have n: "peer_list server_AB \<noteq> peer_list server_A"
    and e: "peer_list server_AB = peer_list server_A @ [peer_B]"
    by (simp_all add: server_AB_def server_A_def)
  from failed_handshake_unwinds[OF b ex_AB] n obtain P where
    pl: "peer_list server_AB = peer_list server_A @ [P]"
    and sends: "filter is_send (calls_since world_A world_AB) =
        initial_info hdr0 server_A P @
        concat (map (\<lambda>q. advertisement (peer_sock_fd q) (peer_id P)
                           (take (n_vectors server_A) (vectors P))) (peer_list server_A)) @
        concat (map (\<lambda>q. advertisement (peer_sock_fd P) (peer_id q)
                           (take (n_vectors server_A) (vectors q))) (peer_list server_A)) @
        advertisement (peer_sock_fd P) (peer_id P) (take (n_vectors server_A) (vectors P))"
    by blast
  from pl e have P: "P = peer_B" by simp
  have s: "filter is_send (calls_since world_A world_AB) =
     [Sendmsg 17 0 None, Sendmsg 17 1 None, Sendmsg 17 (- 1) (Some 3),
      Sendmsg 8 1 (Some 19), Sendmsg 8 1 (Some 20),
      Sendmsg 17 0 (Some 10), Sendmsg 17 0 (Some 11),
      Sendmsg 17 1 (Some 19), Sendmsg 17 1 (Some 20)]"
    unfolding sends P
    by (simp add: initial_info_def advertisement_def cmsg_of_def server_A_def
        started_server_def peer_A_def peer_B_def hdr0_def)
  show ?thesis
    using a ex_aborted f m b ex_AB n e s by (simp add: ex_aborted_accept)
qed

text \<open>
  C10. When a connection was accepted and its handshake returns -1, the server is
  the server before the call with one field changed: \<open>cur_id\<close> is the probed id
  \<open>c\<close> (the first unused id from the old \<open>cur_id\<close> on) plus one. The registry, the
  listening socket, the shared-memory descriptor and the configuration are unchanged
  and the counter is not rolled back. The allocations that follow skip \<open>c\<close>: after
  every sequence of connections, disconnections and dispatch cycles from the state
  that the aborted handshake left, on any operating system, no peer of the registry
  has the id \<open>c\<close>, as long as the operations of the sequence and the peers that were
  registered at the abort are together fewer than \<open>2^64 - 1\<close> (the 64-bit counter
  comes back to \<open>c\<close> after \<open>2^64 - 1\<close> increments, fewer by the ids it jumps over).
  Every prefix of such a sequence is such a sequence, so \<open>c\<close> is assigned at no
  moment of it.
\<close>

theorem aborted_handshake_frame:
  assumes "0 \<le> fst (os (trace w) (Accept4 (sock_fd s)))"
    and "ivshmem_server_handle_new_conn h os s w = Returns (- 1, s', w')"
  shows "\<exists>c. c \<notin> peer_id ` set (peer_list s) \<and> get_unused_id s = Some (s\<lparr>cur_id := c\<rparr>) \<and>
           s' = s\<lparr>cur_id := c + 1\<rparr> \<and>
           (\<forall>os' ops t v. length ops + length (peer_list s) < 2 ^ 64 - 1 \<longrightarrow>
              run h os' ops s' w' = Returns (t, v) \<longrightarrow> c \<notin> peer_id ` set (peer_list t))"
  using assms
proof (cases rule: handle_new_conn_returns)
  case (success c P evE evI evR)
  then show ?thesis by simp
next
  case (failure c P evE evI evR)
  have later: "c \<notin> peer_id ` set (peer_list t)"
    if len: "length ops + length (peer_list s) < 2 ^ 64 - 1"
      and r: "run h os' ops s' w' = Returns (t, v)" for os' ops t v
  proof -
    from len have "length (peer_list s) + length ops < 2 ^ 64 - 1" by (simp add: add.commute)
    from skips_start[OF failure(2) this] have "skips c (length ops) s'"
      by (simp add: failure(7))
    from skips_run[OF r this] show ?thesis by (simp add: skips_def)
  qed
  show ?thesis
    using failure(1,2,7) later by blast
qed

text \<open>
  C10 on the scenario: the handshake that would have been given id 1 aborts; the peers
  that connect afterwards are given the ids 2 and 3.
\<close>

theorem aborted_handshake_frame_witness:
  "0 \<le> fst (os_eventfd_limit 17 (trace world_A) (Accept4 (sock_fd server_A))) \<and>
   ivshmem_server_handle_new_conn hdr0 (os_eventfd_limit 17) server_A world_A =
     Returns (- 1, server_A_aborted, world_A_aborted) \<and>
   cur_id server_A = 1 \<and> server_A_aborted = server_A\<lparr>cur_id := 1 + 1\<rparr> \<and>
   length [Connect, Disconnect 1, Connect] + length (peer_list server_A) < 2 ^ 64 - 1 \<and>
   ids_after (run hdr0 os_ok [Connect, Disconnect 1, Connect] server_A_aborted world_A_aborted) =
     Some [0, 3] \<and>
   1 \<notin> set [0, 3 :: 64 word]"
proof -
  have a: "0 \<le> fst (os_eventfd_limit 17 (trace world_A) (Accept4 (sock_fd server_A)))"
    by (simp add: ex_aborted_accept)
  have l: "length [Connect, Disconnect 1, Connect] + length (peer_list server_A) < 2 ^ 64 - 1"
    by (simp add: server_A_def)
  have e: "cur_id server_A = 1" "server_A_aborted = server_A\<lparr>cur_id := 1 + 1\<rparr>"
    by (simp_all add: server_A_def server_A_aborted_def)
  from ex_run_after_abort obtain t v where
    r: "run hdr0 os_ok [Connect, Disconnect 1, Connect] server_A_aborted world_A_aborted =
          Returns (t, v)"
    and ids: "map peer_id (peer_list t) = [0, 3]"
    by (auto simp: ids_after_def split: outcome.splits)
  from aborted_handshake_frame[OF a ex_aborted] obtain c where
    c: "server_A_aborted = server_A\<lparr>cur_id := c + 1\<rparr>"
    and n: "\<forall>os' ops t v. length ops + length (peer_list server_A) < 2 ^ 64 - 1 \<longrightarrow>
              run hdr0 os' ops server_A_aborted world_A_aborted = Returns (t, v) \<longrightarrow>
              c \<notin> peer_id ` set (peer_list t)"
    by blast
  from c have "cur_id server_A_aborted = c + 1"
    by (metis server.select_convs(7) server.surjective server.update_convs(7))
  then have "c + 1 = 2" by (simp add: server_A_aborted_def)
  then have c1: "c = 1" by (metis add_diff_cancel_right' one_add_one)
  from n l r have "c \<notin> peer_id ` set (peer_list t)" by blast
  then have "c \<notin> set (map peer_id (peer_list t))" by simp
  then have "1 \<notin> set [0, 3 :: 64 word]" unfolding ids c1 .
  then show ?thesis using a ex_aborted l e ex_run_after_abort by simp
qed

section \<open>Properties of the dispatch cycle\<close>




text \<open>
  C6. The claim: for every requested size, \<^verbatim>\<open>ivshmem_server_ftruncate\<close> first rounds the
  size up to the smallest power of two greater than or equal to it, then attempts that
  size and each successive doubling, succeeding at the first size the storage accepts
  and failing once the candidate exceeds 1 GiB. This is also what the comment above the
  function announces (\<^emph>\<open>try to ftruncate a file to next power of 2 of shmsize; if it
  fails, all power of 2 above shmsize are tested until we reach the maximum huge page
  size\<close>). The code does not do it for a request of 3 GiB (\<^verbatim>\<open>0xC0000000\<close>): the
  bit-smearing on \<^verbatim>\<open>unsigned\<close> fills all 32 bits and the increment wraps to 0, which
  is not above 1 GiB, so \<^verbatim>\<open>ftruncate(fd, 0)\<close> is attempted. When the storage accepts it
  the function reports success with a file of size 0; when the storage refuses every
  size, the candidate stays \<open>0 * 2 = 0\<close> and the function never returns, where the
  claim has it fail.
\<close>

theorem ftruncate_wraps_to_zero:
  "align_shmsize 0xC0000000 = 0 \<and>
   ivshmem_server_ftruncate os_ok 3 0xC0000000 empty_world =
     Some (0, \<lparr>trace = [(Ftruncate 3 0, 0)], errno = 0, printed = []\<rparr>) \<and>
   ivshmem_server_ftruncate os_no_ftruncate 3 0xC0000000 empty_world = None"
proof -
  have a: "align_shmsize 0xC0000000 = 0" by (simp add: align_shmsize_def)
  have b: "ftruncate_retry os_ok 3 0 empty_world =
      Some (0, \<lparr>trace = [(Ftruncate 3 0, 0)], errno = 0, printed = []\<rparr>)"
    by (subst ftruncate_retry.simps)
       (simp add: sys_def os_ok_def empty_world_def IVSHMEM_SERVER_MAX_HUGEPAGE_SIZE_def)
  show ?thesis
    using a b ftruncate_retry_zero_diverges[of 3 empty_world]
    by (simp add: ivshmem_server_ftruncate_def)
qed

end
